theory Spec2Isabelle
  imports Main "HOL-Library.Word"
begin

unbundle bit_operations_syntax

section \<open>Go error values\<close>

text \<open>
  A Go \<open>error\<close> is \<open>nil\<close> or an error value, so a function result of type \<open>error\<close> is an
  \<open>err option\<close> with \<open>None\<close> for \<open>nil\<close>. The error values the package handles are the
  sentinels \<open>filepath.SkipDir\<close>, \<open>filepath.SkipAll\<close> and \<open>fs.ErrNotExist\<close>, errors of the
  libraries that unwrap to no sentinel (system call failures, a \<open>modfile.ErrorList\<close>, a
  loader failure, a caller's own error: \<open>Opaque\<close> with its message), a \<open>packages.Error\<close>,
  the result of \<open>errors.Wrapf\<close>, the result of \<open>errors.Join\<close>, and the package's own
  \<open>PackageLoadError\<close> with its fields \<open>PkgPath\<close> and \<open>Err\<close>.
\<close>

record packages_Error =
  Pos :: string
  Msg :: string
  Kind :: nat

datatype err =
    SkipDir
  | SkipAll
  | ErrNotExist
  | Opaque string
  | PackagesError packages_Error
  | Wrapped err string
  | Joined "err list"
  | PackageLoadError string err

text \<open>\<open>PackageLoadError.Unwrap\<close> (source lines 230-232).\<close>

fun Unwrap :: "err \<Rightarrow> err option" where
  "Unwrap (PackageLoadError pkgPath e) = Some e"
| "Unwrap (Wrapped e msg) = Some e"
| "Unwrap _ = None"

text \<open>
  \<open>errors.Is\<close>: the error is the target, or the error it unwraps to matches, or one of the
  errors of a join matches.
\<close>

fun errors_Is :: "err \<Rightarrow> err \<Rightarrow> bool"
  and errors_Is_any :: "err list \<Rightarrow> err \<Rightarrow> bool" where
  "errors_Is SkipDir target = (target = SkipDir)"
| "errors_Is SkipAll target = (target = SkipAll)"
| "errors_Is ErrNotExist target = (target = ErrNotExist)"
| "errors_Is (Opaque m) target = (target = Opaque m)"
| "errors_Is (PackagesError p) target = (target = PackagesError p)"
| "errors_Is (Wrapped e m) target = (if target = Wrapped e m then True else errors_Is e target)"
| "errors_Is (Joined es) target = (if target = Joined es then True else errors_Is_any es target)"
| "errors_Is (PackageLoadError p e) target =
     (if target = PackageLoadError p e then True else errors_Is e target)"
| "errors_Is_any [] target = False"
| "errors_Is_any (e # es) target = (if errors_Is e target then True else errors_Is_any es target)"

text \<open>\<open>errors.Wrapf\<close> of \<open>github.com/bobg/errors\<close>: \<open>nil\<close> stays \<open>nil\<close>.\<close>

fun Wrapf :: "err option \<Rightarrow> string \<Rightarrow> err option" where
  "Wrapf None msg = None"
| "Wrapf (Some e) msg = Some (Wrapped e msg)"

text \<open>
  \<open>errors.Join\<close>, as in the standard library: the \<open>nil\<close> arguments are dropped, no error
  left is \<open>nil\<close>, and the others are the errors of one joined error.
\<close>

definition errors_Join :: "err option list \<Rightarrow> err option" where
  "errors_Join errs =
     (case List.map_filter id errs of [] \<Rightarrow> None | e # es \<Rightarrow> Some (Joined (e # es)))"

section \<open>Paths\<close>

text \<open>
  \<open>filepath.Join\<close> on a Unix system: the leading empty elements are dropped, the rest is
  joined with a slash and the result is cleaned by \<open>filepath.Clean\<close>. \<open>Clean\<close> works on the
  components between slashes: empty components and \<open>.\<close> are dropped, \<open>..\<close> removes the
  component before it (and stays when there is none to remove in a relative path), and a
  path that ends up empty is \<open>.\<close>. The components are kept on a stack, last one first.
\<close>

fun split_slash :: "string \<Rightarrow> string list" where
  "split_slash [] = [] # []"
| "split_slash (c # cs) =
     (if c = CHR ''/'' then [] # split_slash cs
      else (case split_slash cs of [] \<Rightarrow> [c] # [] | x # xs \<Rightarrow> (c # x) # xs))"

fun join_slash :: "string list \<Rightarrow> string" where
  "join_slash [] = []"
| "join_slash [x] = x"
| "join_slash (x # y # ys) = x @ ''/'' @ join_slash (y # ys)"

definition clean_step :: "bool \<Rightarrow> string list \<Rightarrow> string \<Rightarrow> string list" where
  "clean_step rooted stack c =
     (if c = [] \<or> c = ''.'' then stack
      else if c = ''..'' then
        (case stack of
           [] \<Rightarrow> if rooted then [] else [''..'']
         | t # rest \<Rightarrow> if t = ''..'' then ''..'' # stack else rest)
      else c # stack)"

definition is_rooted :: "string \<Rightarrow> bool" where
  "is_rooted path = (take 1 path = ''/'')"

definition clean_stack :: "string \<Rightarrow> string list" where
  "clean_stack path = foldl (clean_step (is_rooted path)) [] (split_slash path)"

definition render_path :: "bool \<Rightarrow> string list \<Rightarrow> string" where
  "render_path rooted stack =
     (if rooted then ''/'' @ join_slash (rev stack)
      else if stack = [] then ''.'' else join_slash (rev stack))"

definition Clean :: "string \<Rightarrow> string" where
  "Clean path = (if path = [] then ''.'' else render_path (is_rooted path) (clean_stack path))"

definition Join :: "string list \<Rightarrow> string" where
  "Join elem =
     (case dropWhile (\<lambda>e. e = []) elem of [] \<Rightarrow> [] | e # es \<Rightarrow> Clean (join_slash (e # es)))"

text \<open>\<open>strings.HasPrefix\<close>.\<close>

definition HasPrefix :: "string \<Rightarrow> string \<Rightarrow> bool" where
  "HasPrefix s prefix = (take (length prefix) s = prefix)"

section \<open>The directory tree\<close>

text \<open>
  The walker never follows a symbolic link (the \<open>IsDir\<close> of a directory entry is false for
  one), so what it walks is a tree. A node is a directory or anything else. A directory has
  its entries in the order \<open>os.ReadDir\<close> lists them, and two faults that the claims on
  errors need: the failure, if any, of \<open>os.Stat\<close> on its \<open>go.mod\<close> for another reason than
  the file being absent, and the failure, if any, of \<open>os.ReadDir\<close>.
\<close>

datatype node =
    RegularFile
  | Directory (statFault: "string option") (readFault: "string option")
      (entries: "(string \<times> node) list")

fun IsDir :: "node \<Rightarrow> bool" where
  "IsDir RegularFile = False"
| "IsDir (Directory sf rf ents) = True"

text \<open>
  \<open>os.Stat\<close> of the \<open>go.mod\<close> of a directory: \<open>nil\<close> when an entry has that name. A path
  whose node is not a directory has no \<open>go.mod\<close> below it, and the system call fails with
  \<open>ENOTDIR\<close>.
\<close>

fun os_Stat_gomod :: "node \<Rightarrow> err option" where
  "os_Stat_gomod RegularFile = Some (Opaque ''not a directory'')"
| "os_Stat_gomod (Directory sf rf ents) =
     (case sf of
        Some m \<Rightarrow> Some (Opaque m)
      | None \<Rightarrow> if ''go.mod'' \<in> set (map fst ents) then None else Some ErrNotExist)"

section \<open>The walker\<close>

text \<open>
  \<open>packages.Config\<close> of \<open>golang.org/x/tools/go/packages\<close>: the fields that hold a
  function, a pointer, an interface, a slice or a map are \<open>None\<close> when \<open>nil\<close>, which is all
  that \<open>reflect.DeepEqual\<close> against the zero value reads of them. \<open>LoadMode\<close> is a Go
  \<open>int\<close>.
\<close>

type_synonym LoadMode = "64 word"

record Config =
  Mode :: LoadMode
  Context :: "nat option"
  Logf :: "nat option"
  Dir :: string
  Env :: "string list option"
  BuildFlags :: "string list option"
  Fset :: "nat option"
  ParseFile :: "nat option"
  Tests :: bool
  Overlay :: "(string \<times> string) list option"

record Walker =
  IncludeVendor :: bool
  IncludeTestdata :: bool
  ParseLax :: bool
  VersionFixer :: "(string \<Rightarrow> string \<Rightarrow> string + string) option"
  LoadConfig :: Config
  FailOnPackageErrors :: bool

text \<open>
  A callback \<open>func(string) error\<close> is a closure: it reads and changes a state of the
  caller's, of any type \<open>'s\<close>, and returns its error.
\<close>

type_synonym 's callback = "string \<Rightarrow> 's \<Rightarrow> err option \<times> 's"

text \<open>
  \<open>Walker.each\<close>, source lines 78-121. \<open>range_entries\<close> is the loop of lines 101-118 over
  the entries that are left.
\<close>

datatype flow = Return "err option" | Fallthrough

definition stat_and_visit :: "'s callback \<Rightarrow> string \<Rightarrow> node \<Rightarrow> 's \<Rightarrow> flow \<times> 's" where
  "stat_and_visit f dir nd s =
     (let gomodPath = Join [dir, ''go.mod''] in
      case os_Stat_gomod nd of
        Some e \<Rightarrow>
          if errors_Is e ErrNotExist then (Fallthrough, s)
          else (Return (Wrapf (Some e) (''statting '' @ gomodPath)), s)
      | None \<Rightarrow>
          (case f dir s of
             (Some e, s') \<Rightarrow>
               if errors_Is e SkipDir then (Return None, s')
               else (Return (Wrapf (Some e) (''in '' @ dir)), s')
           | (None, s') \<Rightarrow> (Fallthrough, s')))"

definition skip_entry :: "Walker \<Rightarrow> string \<Rightarrow> node \<Rightarrow> bool" where
  "skip_entry w name nd =
     (if \<not> IsDir nd then True
      else if HasPrefix name ''.'' \<or> HasPrefix name ''_'' then True
      else if \<not> IncludeVendor w \<and> name = ''vendor'' then True
      else if \<not> IncludeTestdata w \<and> name = ''testdata'' then True
      else False)"

fun each :: "Walker \<Rightarrow> 's callback \<Rightarrow> string \<Rightarrow> node \<Rightarrow> 's \<Rightarrow> err option \<times> 's"
  and range_entries ::
    "Walker \<Rightarrow> 's callback \<Rightarrow> string \<Rightarrow> (string \<times> node) list \<Rightarrow> 's \<Rightarrow> err option \<times> 's"
  where
  "each w f dir RegularFile s =
     (case stat_and_visit f dir RegularFile s of
        (Return r, s') \<Rightarrow> (r, s')
      | (Fallthrough, s') \<Rightarrow> (Wrapf (Some (Opaque ''not a directory'')) (''reading directory '' @ dir), s'))"
| "each w f dir (Directory sf rf ents) s =
     (case stat_and_visit f dir (Directory sf rf ents) s of
        (Return r, s') \<Rightarrow> (r, s')
      | (Fallthrough, s') \<Rightarrow>
          (case rf of
             Some m \<Rightarrow> (Wrapf (Some (Opaque m)) (''reading directory '' @ dir), s')
           | None \<Rightarrow> range_entries w f dir ents s'))"
| "range_entries w f dir [] s = (None, s)"
| "range_entries w f dir ((name, nd) # rest) s =
     (if skip_entry w name nd then range_entries w f dir rest s
      else
        (case each w f (Join [dir, name]) nd s of
           (Some e, s') \<Rightarrow> (Some e, s')
         | (None, s') \<Rightarrow> range_entries w f dir rest s'))"

text \<open>\<open>Walker.Each\<close>, source lines 70-76.\<close>

definition Each :: "Walker \<Rightarrow> 's callback \<Rightarrow> string \<Rightarrow> node \<Rightarrow> 's \<Rightarrow> err option \<times> 's" where
  "Each w f dir nd s =
     (case each w f dir nd s of
        (Some e, s') \<Rightarrow> if errors_Is e SkipAll then (None, s') else (Some e, s')
      | (None, s') \<Rightarrow> (None, s'))"

section \<open>The adapters\<close>

text \<open>
  The collaborators of the package: \<open>os.ReadFile\<close>, the two parsers of
  \<open>golang.org/x/mod/modfile\<close> (called with the path, the bytes and the version fixer) and
  \<open>packages.Load\<close> (called with the configuration and the patterns). They are parameters of
  the model. Each may read and change the state that the callback works on, and each fails
  with an error that unwraps to no sentinel, given by its message.
\<close>

record Package =
  PkgPath :: string
  Errors :: "packages_Error list"

record ('s, 'mf) collaborators =
  os_ReadFile :: "string \<Rightarrow> 's \<Rightarrow> (string + string) \<times> 's"
  modfile_Parse ::
    "string \<Rightarrow> string \<Rightarrow> (string \<Rightarrow> string \<Rightarrow> string + string) option \<Rightarrow> 's \<Rightarrow> (string + 'mf) \<times> 's"
  modfile_ParseLax ::
    "string \<Rightarrow> string \<Rightarrow> (string \<Rightarrow> string \<Rightarrow> string + string) option \<Rightarrow> 's \<Rightarrow> (string + 'mf) \<times> 's"
  packages_Load :: "Config \<Rightarrow> string \<Rightarrow> 's \<Rightarrow> (string + Package list) \<times> 's"

text \<open>\<open>Walker.withGomod\<close>, source lines 145-163.\<close>

definition withGomod ::
  "Walker \<Rightarrow> ('s, 'mf) collaborators \<Rightarrow> string \<Rightarrow> string \<Rightarrow>
   (string \<Rightarrow> 'mf \<Rightarrow> 's \<Rightarrow> err option \<times> 's) \<Rightarrow> 's \<Rightarrow> err option \<times> 's" where
  "withGomod w env dir subdir f s =
     (let gomodPath = Join [subdir, ''go.mod''] in
      case os_ReadFile env gomodPath s of
        (Inl m, s1) \<Rightarrow> (Wrapf (Some (Opaque m)) (''reading '' @ gomodPath), s1)
      | (Inr data, s1) \<Rightarrow>
          (case (if ParseLax w then modfile_ParseLax env gomodPath data (VersionFixer w) s1
                 else modfile_Parse env gomodPath data (VersionFixer w) s1) of
             (Inl m, s2) \<Rightarrow> (Wrapf (Some (Opaque m)) (''parsing '' @ gomodPath), s2)
           | (Inr mf, s2) \<Rightarrow> f subdir mf s2))"

text \<open>\<open>Walker.EachGomod\<close>, source lines 139-143.\<close>

definition EachGomod ::
  "Walker \<Rightarrow> ('s, 'mf) collaborators \<Rightarrow> string \<Rightarrow>
   (string \<Rightarrow> 'mf \<Rightarrow> 's \<Rightarrow> err option \<times> 's) \<Rightarrow> node \<Rightarrow> 's \<Rightarrow> err option \<times> 's" where
  "EachGomod w env dir f nd s = Each w (\<lambda>subdir. withGomod w env dir subdir f) dir nd s"

text \<open>
  The load modes of \<open>golang.org/x/tools/go/packages\<close>, one bit each, and the defaults of
  source lines 58-64.
\<close>

definition NeedName :: LoadMode where "NeedName = push_bit 0 1"
definition NeedFiles :: LoadMode where "NeedFiles = push_bit 1 1"
definition NeedImports :: LoadMode where "NeedImports = push_bit 3 1"
definition NeedDeps :: LoadMode where "NeedDeps = push_bit 4 1"
definition NeedTypes :: LoadMode where "NeedTypes = push_bit 6 1"
definition NeedSyntax :: LoadMode where "NeedSyntax = push_bit 7 1"
definition NeedTypesInfo :: LoadMode where "NeedTypesInfo = push_bit 8 1"
definition NeedTypesSizes :: LoadMode where "NeedTypesSizes = push_bit 9 1"
definition NeedModule :: LoadMode where "NeedModule = push_bit 13 1"
definition NeedEmbedFiles :: LoadMode where "NeedEmbedFiles = push_bit 14 1"
definition NeedEmbedPatterns :: LoadMode where "NeedEmbedPatterns = push_bit 15 1"

definition zeroLoadConfig :: Config where
  "zeroLoadConfig =
     \<lparr>Mode = 0, Context = None, Logf = None, Dir = [], Env = None, BuildFlags = None,
      Fset = None, ParseFile = None, Tests = False, Overlay = None\<rparr>"

definition DefaultLoadMode :: LoadMode where
  "DefaultLoadMode =
     NeedName OR NeedFiles OR NeedImports OR NeedDeps OR NeedTypes OR NeedSyntax OR
     NeedTypesInfo OR NeedTypesSizes OR NeedModule OR NeedEmbedFiles OR NeedEmbedPatterns"

definition DefaultLoadConfig :: Config where
  "DefaultLoadConfig = zeroLoadConfig\<lparr>Mode := DefaultLoadMode\<rparr>"

text \<open>\<open>isZeroConfig\<close>, source lines 216-218.\<close>

definition isZeroConfig :: "Config \<Rightarrow> bool" where
  "isZeroConfig conf = (conf = zeroLoadConfig)"

text \<open>
  The loop of source lines 201-206: every error of every package, as a
  \<open>PackageLoadError\<close>, is joined to the errors before it.
\<close>

definition join_package_errors :: "Package list \<Rightarrow> err option" where
  "join_package_errors pkgs =
     foldl (\<lambda>e pkg.
        foldl (\<lambda>e pkgErr.
           errors_Join [e, Some (PackageLoadError (PkgPath pkg) (PackagesError pkgErr))])
          e (Errors pkg))
       None pkgs"

text \<open>
  \<open>Walker.LoadEach\<close>, source lines 184-214: \<open>load_config\<close> is lines 185-192, and
  \<open>load_visit\<close> the closure of lines 194-213, which has the configuration in \<open>conf\<close>.
\<close>

definition load_config :: "Walker \<Rightarrow> string \<Rightarrow> Config" where
  "load_config w dir =
     (let conf = LoadConfig w;
          conf = (if isZeroConfig conf then DefaultLoadConfig else conf);
          conf = (if Mode conf = 0 then conf\<lparr>Mode := DefaultLoadMode\<rparr> else conf)
      in conf\<lparr>Dir := dir\<rparr>)"

definition load_visit ::
  "Walker \<Rightarrow> ('s, 'mf) collaborators \<Rightarrow> Config \<Rightarrow>
   (string \<Rightarrow> Package list \<Rightarrow> 's \<Rightarrow> err option \<times> 's) \<Rightarrow> 's callback" where
  "load_visit w env conf f subdir s =
     (case packages_Load env conf ''./...'' s of
        (Inl m, s1) \<Rightarrow> (Wrapf (Some (Opaque m)) (''loading packages in '' @ subdir), s1)
      | (Inr pkgs, s1) \<Rightarrow>
          (case (if FailOnPackageErrors w then join_package_errors pkgs else None) of
             Some e \<Rightarrow> (Some e, s1)
           | None \<Rightarrow> f subdir pkgs s1))"

definition LoadEach ::
  "Walker \<Rightarrow> ('s, 'mf) collaborators \<Rightarrow> string \<Rightarrow>
   (string \<Rightarrow> Package list \<Rightarrow> 's \<Rightarrow> err option \<times> 's) \<Rightarrow> node \<Rightarrow> 's \<Rightarrow> err option \<times> 's" where
  "LoadEach w env dir f nd s = Each w (load_visit w env (load_config w dir) f) dir nd s"

text \<open>\<open>Walker.LoadEachGomod\<close>, source lines 241-247.\<close>

definition LoadEachGomod ::
  "Walker \<Rightarrow> ('s, 'mf) collaborators \<Rightarrow> string \<Rightarrow>
   (string \<Rightarrow> 'mf \<Rightarrow> Package list \<Rightarrow> 's \<Rightarrow> err option \<times> 's) \<Rightarrow> node \<Rightarrow> 's \<Rightarrow> err option \<times> 's"
  where
  "LoadEachGomod w env dir f nd s =
     LoadEach w env dir
       (\<lambda>subdir pkgs. withGomod w env dir subdir (\<lambda>subdir mf. f subdir mf pkgs)) nd s"

text \<open>The functions of the package that take no walker use the zero walker.\<close>

definition zeroWalker :: Walker where
  "zeroWalker =
     \<lparr>IncludeVendor = False, IncludeTestdata = False, ParseLax = False, VersionFixer = None,
      LoadConfig = zeroLoadConfig, FailOnPackageErrors = False\<rparr>"

section \<open>Observing a walk\<close>

text \<open>
  What holds after a walk when the callback keeps an invariant: \<open>I\<close> holds of the state as long as
  the walk goes on, and \<open>A d e\<close> holds of it once the callback has returned at \<open>d\<close> an error
  \<open>e\<close> that is not the skip of a subtree. A walk ends with no error, with a failure of the file
  system, or with the error of the callback in the context of its directory.
\<close>

definition walk_post :: "('s \<Rightarrow> bool) \<Rightarrow> (string \<Rightarrow> err \<Rightarrow> 's \<Rightarrow> bool) \<Rightarrow> err option \<Rightarrow> 's \<Rightarrow> bool" where
  "walk_post I A r s =
     (case r of
        None \<Rightarrow> I s
      | Some e \<Rightarrow>
          (I s \<and> (\<exists>m p. e = Wrapped (Opaque m) p)) \<or>
          (\<exists>d e0. e = Wrapped e0 (''in '' @ d) \<and> \<not> errors_Is e0 SkipDir \<and> A d e0 s))"

definition visit_inv :: "('s \<Rightarrow> bool) \<Rightarrow> (string \<Rightarrow> err \<Rightarrow> 's \<Rightarrow> bool) \<Rightarrow> 's callback \<Rightarrow> bool" where
  "visit_inv I A f =
     (\<forall>d s r s'. I s \<longrightarrow> f d s = (r, s') \<longrightarrow>
        (case r of
           None \<Rightarrow> I s'
         | Some e \<Rightarrow> if errors_Is e SkipDir then I s' else A d e s'))"

text \<open>
  A callback that is watched: every call is recorded, with its directory and its result,
  after the calls before it.
\<close>

definition logged :: "'s callback \<Rightarrow> ((string \<times> err option) list \<times> 's) callback" where
  "logged f d st =
     (case st of (tr, s) \<Rightarrow> (case f d s of (r, s') \<Rightarrow> (r, (tr @ [(d, r)], s'))))"

text \<open>
  A result of the callback that ends the walk: an error that is not the skip of a subtree.
  \<open>none_aborting\<close> and \<open>aborted_last\<close> are the invariant of a walk with a watched callback.
\<close>

definition aborting :: "err option \<Rightarrow> bool" where
  "aborting r = (case r of None \<Rightarrow> False | Some e \<Rightarrow> \<not> errors_Is e SkipDir)"

definition none_aborting :: "(string \<times> err option) list \<times> 's \<Rightarrow> bool" where
  "none_aborting st = list_all (\<lambda>x. \<not> aborting (snd x)) (fst st)"

definition aborted_last :: "string \<Rightarrow> err \<Rightarrow> (string \<times> err option) list \<times> 's \<Rightarrow> bool" where
  "aborted_last d e st =
     (fst st \<noteq> [] \<and> last (fst st) = (d, Some e) \<and>
      list_all (\<lambda>x. \<not> aborting (snd x)) (butlast (fst st)))"

text \<open>
  The names that the walk leaves out, and the tree without the directories of these names,
  at every depth.
\<close>

definition skipped_name :: "Walker \<Rightarrow> string \<Rightarrow> bool" where
  "skipped_name w name =
     ((name = ''vendor'' \<and> \<not> IncludeVendor w) \<or> (name = ''testdata'' \<and> \<not> IncludeTestdata w) \<or>
      take 1 name = ''.'' \<or> take 1 name = ''_'')"

fun prune :: "Walker \<Rightarrow> node \<Rightarrow> node"
  and prune_entries :: "Walker \<Rightarrow> (string \<times> node) list \<Rightarrow> (string \<times> node) list" where
  "prune w RegularFile = RegularFile"
| "prune w (Directory sf rf ents) = Directory sf rf (prune_entries w ents)"
| "prune_entries w [] = []"
| "prune_entries w ((name, nd) # rest) =
     (if IsDir nd \<and> skipped_name w name then prune_entries w rest
      else (name, prune w nd) # prune_entries w rest)"

text \<open>
  The name of a directory entry is not empty, has no slash, and is neither \<open>.\<close> nor \<open>..\<close>.
  A stack of components is normal when \<open>Clean\<close> leaves it as it is.
\<close>

definition valid_name :: "string \<Rightarrow> bool" where
  "valid_name n = (n \<noteq> [] \<and> CHR ''/'' \<notin> set n \<and> n \<noteq> ''.'' \<and> n \<noteq> ''..'')"

fun normal_stack :: "bool \<Rightarrow> string list \<Rightarrow> bool" where
  "normal_stack rooted [] = True"
| "normal_stack rooted (x # st) =
     (x \<noteq> [] \<and> CHR ''/'' \<notin> set x \<and> x \<noteq> ''.'' \<and>
      (if x = ''..'' then \<not> rooted \<and> list_all (\<lambda>y. y = ''..'') st else True) \<and>
      normal_stack rooted st)"

text \<open>
  The tree of the scenario of the specification: \<open>root/go.mod\<close>, \<open>root/a/go.mod\<close>,
  \<open>root/a/vendor/go.mod\<close> and \<open>root/b/testdata/go.mod\<close>; and a callback that returns
  an error at one directory.
\<close>

definition scenario_tree :: node where
  "scenario_tree =
     Directory None None
       [(''a'', Directory None None
           [(''go.mod'', RegularFile),
            (''vendor'', Directory None None [(''go.mod'', RegularFile)])]),
        (''b'', Directory None None
           [(''testdata'', Directory None None [(''go.mod'', RegularFile)])]),
        (''go.mod'', RegularFile)]"

definition signal_at :: "string \<Rightarrow> err \<Rightarrow> unit callback" where
  "signal_at D e d s = (if d = D then Some e else None, s)"

text \<open>
  The directories that a walk with no error reaches and that have a manifest, in depth-first
  pre-order: a directory before the directories below it, the entries in the order of
  \<open>os.ReadDir\<close>, the directories with a name that is left out not entered. \<open>count_modules\<close>
  is their number, and \<open>manifest_dirs\<close> the number of all the directories of the tree that
  have a manifest, whatever their names.
\<close>

fun module_dirs :: "Walker \<Rightarrow> string \<Rightarrow> node \<Rightarrow> string list"
  and module_dirs_entries :: "Walker \<Rightarrow> string \<Rightarrow> (string \<times> node) list \<Rightarrow> string list" where
  "module_dirs w dir RegularFile = []"
| "module_dirs w dir (Directory sf rf ents) =
     (if ''go.mod'' \<in> set (map fst ents) then [dir] else []) @ module_dirs_entries w dir ents"
| "module_dirs_entries w dir [] = []"
| "module_dirs_entries w dir ((name, nd) # rest) =
     (if IsDir nd \<and> \<not> skipped_name w name then module_dirs w (Join [dir, name]) nd else []) @
     module_dirs_entries w dir rest"

fun count_modules :: "Walker \<Rightarrow> node \<Rightarrow> nat"
  and count_modules_entries :: "Walker \<Rightarrow> (string \<times> node) list \<Rightarrow> nat" where
  "count_modules w RegularFile = 0"
| "count_modules w (Directory sf rf ents) =
     (if ''go.mod'' \<in> set (map fst ents) then 1 else 0) + count_modules_entries w ents"
| "count_modules_entries w [] = 0"
| "count_modules_entries w ((name, nd) # rest) =
     (if IsDir nd \<and> \<not> skipped_name w name then count_modules w nd else 0) +
     count_modules_entries w rest"

fun manifest_dirs :: "node \<Rightarrow> nat"
  and manifest_dirs_entries :: "(string \<times> node) list \<Rightarrow> nat" where
  "manifest_dirs RegularFile = 0"
| "manifest_dirs (Directory sf rf ents) =
     (if ''go.mod'' \<in> set (map fst ents) then 1 else 0) + manifest_dirs_entries ents"
| "manifest_dirs_entries [] = 0"
| "manifest_dirs_entries ((name, nd) # rest) = manifest_dirs nd + manifest_dirs_entries rest"

text \<open>
  No \<open>os.Stat\<close> and no \<open>os.ReadDir\<close> fails in the part of the tree that is walked, and the
  root is a directory.
\<close>

fun fault_free :: "Walker \<Rightarrow> node \<Rightarrow> bool"
  and fault_free_entries :: "Walker \<Rightarrow> (string \<times> node) list \<Rightarrow> bool" where
  "fault_free w RegularFile = False"
| "fault_free w (Directory sf rf ents) = (sf = None \<and> rf = None \<and> fault_free_entries w ents)"
| "fault_free_entries w [] = True"
| "fault_free_entries w ((name, nd) # rest) =
     ((if IsDir nd \<and> \<not> skipped_name w name then fault_free w nd else True) \<and>
      fault_free_entries w rest)"

text \<open>
  The entries of a directory have names that are valid and differ from each other.
\<close>

fun wf_tree :: "node \<Rightarrow> bool"
  and wf_entries :: "(string \<times> node) list \<Rightarrow> bool" where
  "wf_tree RegularFile = True"
| "wf_tree (Directory sf rf ents) = (distinct (map fst ents) \<and> wf_entries ents)"
| "wf_entries [] = True"
| "wf_entries ((name, nd) # rest) = (valid_name name \<and> wf_tree nd \<and> wf_entries rest)"

text \<open>
  A path is below a directory (or is the directory) when its components, once cleaned, are
  those of the directory followed by more.
\<close>

definition path_below :: "string \<Rightarrow> string \<Rightarrow> bool" where
  "path_below dir p =
     (is_rooted p = is_rooted dir \<and>
      drop (length (clean_stack p) - length (clean_stack dir)) (clean_stack p) = clean_stack dir)"

definition no_signal :: "unit callback" where
  "no_signal d s = (None, s)"

text \<open>
  What the collaborators and the callback of the caller do during a walk, in the order in
  which they do it: \<open>os.ReadFile\<close> of a path (with the message of its failure, if it fails),
  a parser (strict or lax) on a path, \<open>packages.Load\<close> with its configuration and its
  result, the callback at a directory with the error it returns.
\<close>

datatype event =
    ReadFileEv string "string option"
  | ParseEv bool string "string option"
  | LoadEv Config "string + Package list"
  | CallEv string "err option"

fun failure_of :: "string + 'a \<Rightarrow> string option" where
  "failure_of (Inl m) = Some m"
| "failure_of (Inr x) = None"

text \<open>
  The collaborators, each recording its call at the end of a log that is kept next to the
  state; and a call of the callback of the caller, recorded in the same way.
\<close>

definition traced :: "('s, 'mf) collaborators \<Rightarrow> ('s \<times> event list, 'mf) collaborators" where
  "traced env =
     \<lparr>os_ReadFile = (\<lambda>path st. case st of (s, log) \<Rightarrow>
        (case os_ReadFile env path s of
           (res, s1) \<Rightarrow> (res, (s1, log @ [ReadFileEv path (failure_of res)])))),
      modfile_Parse = (\<lambda>path data fixer st. case st of (s, log) \<Rightarrow>
        (case modfile_Parse env path data fixer s of
           (res, s1) \<Rightarrow> (res, (s1, log @ [ParseEv False path (failure_of res)])))),
      modfile_ParseLax = (\<lambda>path data fixer st. case st of (s, log) \<Rightarrow>
        (case modfile_ParseLax env path data fixer s of
           (res, s1) \<Rightarrow> (res, (s1, log @ [ParseEv True path (failure_of res)])))),
      packages_Load = (\<lambda>conf pattern st. case st of (s, log) \<Rightarrow>
        (case packages_Load env conf pattern s of
           (res, s1) \<Rightarrow> (res, (s1, log @ [LoadEv conf res]))))\<rparr>"

definition traced_call ::
  "string \<Rightarrow> ('s \<Rightarrow> err option \<times> 's) \<Rightarrow> 's \<times> event list \<Rightarrow> err option \<times> ('s \<times> event list)" where
  "traced_call d k st =
     (case st of (s, log) \<Rightarrow> (case k s of (r, s') \<Rightarrow> (r, (s', log @ [CallEv d r]))))"

text \<open>
  A callback of the walker that works in rounds: each call adds events to the log, and the
  relation \<open>R\<close> holds of its directory, its result and the events that it adds. The log of a
  walk that goes on consists of rounds that did not end the walk; the log of a walk that a
  callback has ended consists of such rounds and the round that ended it.
\<close>

definition emits ::
  "('s \<times> event list) callback \<Rightarrow> (string \<Rightarrow> err option \<Rightarrow> event list \<Rightarrow> bool) \<Rightarrow> bool" where
  "emits V R = (\<forall>d s log. \<exists>r s' evs. V d (s, log) = (r, (s', log @ evs)) \<and> R d r evs)"

definition rounds_running ::
  "(string \<Rightarrow> err option \<Rightarrow> event list \<Rightarrow> bool) \<Rightarrow> 's \<times> event list \<Rightarrow> bool" where
  "rounds_running R st =
     (\<exists>rs. snd st = concat (map (\<lambda>x. snd (snd x)) rs) \<and>
        (\<forall>x\<in>set rs. R (fst x) (fst (snd x)) (snd (snd x)) \<and> \<not> aborting (fst (snd x))))"

definition rounds_aborted ::
  "(string \<Rightarrow> err option \<Rightarrow> event list \<Rightarrow> bool) \<Rightarrow> string \<Rightarrow> err \<Rightarrow> 's \<times> event list \<Rightarrow> bool" where
  "rounds_aborted R d e st =
     (\<exists>rs evs. snd st = concat (map (\<lambda>x. snd (snd x)) rs) @ evs \<and>
        (\<forall>x\<in>set rs. R (fst x) (fst (snd x)) (snd (snd x)) \<and> \<not> aborting (fst (snd x))) \<and>
        R d (Some e) evs)"

text \<open>
  An error of the walker itself: a failure of \<open>os.Stat\<close> or \<open>os.ReadDir\<close> in its context.
\<close>

fun fs_failure :: "err \<Rightarrow> bool" where
  "fs_failure (Wrapped (Opaque m) c) = True"
| "fs_failure e = False"

text \<open>
  The events of a call of \<open>withGomod\<close> that reaches the callback of the caller: the manifest
  is read, then parsed, then the callback is called. \<open>gomod_visit_rel\<close> is what a call of
  \<open>withGomod\<close> does: the read fails, or the parser fails, or the round is complete and the
  result is that of the callback.
\<close>

definition gomod_round :: "Walker \<Rightarrow> string \<times> err option \<Rightarrow> event list" where
  "gomod_round w x =
     [ReadFileEv (Join [fst x, ''go.mod'']) None,
      ParseEv (ParseLax w) (Join [fst x, ''go.mod'']) None,
      CallEv (fst x) (snd x)]"

definition gomod_visit_rel :: "Walker \<Rightarrow> string \<Rightarrow> err option \<Rightarrow> event list \<Rightarrow> bool" where
  "gomod_visit_rel w d r evs =
     ((\<exists>m. evs = [ReadFileEv (Join [d, ''go.mod'']) (Some m)] \<and>
           r = Some (Wrapped (Opaque m) (''reading '' @ Join [d, ''go.mod'']))) \<or>
      (\<exists>m. evs = [ReadFileEv (Join [d, ''go.mod'']) None,
                  ParseEv (ParseLax w) (Join [d, ''go.mod'']) (Some m)] \<and>
           r = Some (Wrapped (Opaque m) (''parsing '' @ Join [d, ''go.mod'']))) \<or>
      evs = gomod_round w (d, r))"

text \<open>
  The events that record a failure of a collaborator.
\<close>

fun failed_event :: "event \<Rightarrow> bool" where
  "failed_event (ReadFileEv p r) = (r \<noteq> None)"
| "failed_event (ParseEv lax p r) = (r \<noteq> None)"
| "failed_event (LoadEv c (Inl m)) = True"
| "failed_event (LoadEv c (Inr pkgs)) = False"
| "failed_event (CallEv d r) = False"

text \<open>
  The errors that a joined error consists of, through every join inside it; and the errors
  of a list of packages, each tagged with the path of its package, in the order of the loop.
\<close>

fun constituents :: "err \<Rightarrow> err list" where
  "constituents (Joined es) = concat (map constituents es)"
| "constituents e = [e]"

definition tagged_errors :: "Package list \<Rightarrow> err list" where
  "tagged_errors pkgs =
     concat (map (\<lambda>pkg. map (\<lambda>e. PackageLoadError (PkgPath pkg) (PackagesError e)) (Errors pkg)) pkgs)"

definition opt_constituents :: "err option \<Rightarrow> err list" where
  "opt_constituents r = (case r of None \<Rightarrow> [] | Some e \<Rightarrow> constituents e)"

text \<open>
  The errors that are the result of \<open>errors.Join\<close>.
\<close>

fun is_join :: "err \<Rightarrow> bool" where
  "is_join (Joined es) = True"
| "is_join e = False"

text \<open>
  The events of a call of the closure of \<open>LoadEach\<close> that reaches the callback of the
  caller, and what a call of the closure does: the loader fails, or the packages have errors
  that are returned joined, or the round is complete. \<open>passes_policy\<close>: the packages of a
  round have no error when \<open>FailOnPackageErrors\<close> is set.
\<close>

definition load_round :: "Config \<Rightarrow> string \<times> Package list \<times> err option \<Rightarrow> event list" where
  "load_round c x = [LoadEv c (Inr (fst (snd x))), CallEv (fst x) (snd (snd x))]"

definition load_visit_rel ::
  "Walker \<Rightarrow> Config \<Rightarrow> string \<Rightarrow> err option \<Rightarrow> event list \<Rightarrow> bool" where
  "load_visit_rel w c d r evs =
     ((\<exists>m. evs = [LoadEv c (Inl m)] \<and>
           r = Some (Wrapped (Opaque m) (''loading packages in '' @ d))) \<or>
      (\<exists>pkgs agg. evs = [LoadEv c (Inr pkgs)] \<and> FailOnPackageErrors w \<and>
           join_package_errors pkgs = Some agg \<and> r = Some agg) \<or>
      (\<exists>pkgs. evs = load_round c (d, pkgs, r) \<and>
           (if FailOnPackageErrors w then join_package_errors pkgs = None else True)))"

definition passes_policy :: "Walker \<Rightarrow> string \<times> Package list \<times> err option \<Rightarrow> bool" where
  "passes_policy w x =
     (if FailOnPackageErrors w then join_package_errors (fst (snd x)) = None else True)"

text \<open>
  The same for \<open>LoadEachGomod\<close>: a complete round is the load, the read, the parse and the
  call of the callback, in this order. \<open>combined_end\<close> lists how a walk ends: after its last
  complete round, with the failure of the loader, with the joined errors of the packages,
  with the failure of the read or of the parser, or with an error of the callback; and the
  error that \<open>LoadEachGomod\<close> returns then.
\<close>

definition combined_round :: "Walker \<Rightarrow> Config \<Rightarrow> string \<times> Package list \<times> err option \<Rightarrow> event list" where
  "combined_round w c x = LoadEv c (Inr (fst (snd x))) # gomod_round w (fst x, snd (snd x))"

definition combined_visit_rel ::
  "Walker \<Rightarrow> Config \<Rightarrow> string \<Rightarrow> err option \<Rightarrow> event list \<Rightarrow> bool" where
  "combined_visit_rel w c d r evs =
     ((\<exists>m. evs = [LoadEv c (Inl m)] \<and>
           r = Some (Wrapped (Opaque m) (''loading packages in '' @ d))) \<or>
      (\<exists>pkgs agg. evs = [LoadEv c (Inr pkgs)] \<and> FailOnPackageErrors w \<and>
           join_package_errors pkgs = Some agg \<and> r = Some agg) \<or>
      (\<exists>pkgs evs'. evs = LoadEv c (Inr pkgs) # evs' \<and> passes_policy w (d, pkgs, r) \<and>
           gomod_visit_rel w d r evs'))"

definition combined_end :: "Walker \<Rightarrow> Config \<Rightarrow> err option \<Rightarrow> event list \<Rightarrow> bool" where
  "combined_end w c r tail =
     ((tail = [] \<and> (r = None \<or> (\<exists>e. r = Some e \<and> fs_failure e))) \<or>
      (\<exists>m d. tail = [LoadEv c (Inl m)] \<and>
         r = Some (Wrapped (Wrapped (Opaque m) (''loading packages in '' @ d)) (''in '' @ d))) \<or>
      (\<exists>pkgs agg d. tail = [LoadEv c (Inr pkgs)] \<and> FailOnPackageErrors w \<and>
         join_package_errors pkgs = Some agg \<and> r = Some (Wrapped agg (''in '' @ d))) \<or>
      (\<exists>pkgs m d. tail = [LoadEv c (Inr pkgs), ReadFileEv (Join [d, ''go.mod'']) (Some m)] \<and>
         r = Some (Wrapped (Wrapped (Opaque m) (''reading '' @ Join [d, ''go.mod''])) (''in '' @ d))) \<or>
      (\<exists>pkgs m d. tail = [LoadEv c (Inr pkgs), ReadFileEv (Join [d, ''go.mod'']) None,
                          ParseEv (ParseLax w) (Join [d, ''go.mod'']) (Some m)] \<and>
         r = Some (Wrapped (Wrapped (Opaque m) (''parsing '' @ Join [d, ''go.mod''])) (''in '' @ d))) \<or>
      (\<exists>pkgs e d. tail = combined_round w c (d, pkgs, Some e) \<and> \<not> errors_Is e SkipDir \<and>
         r = (if errors_Is e SkipAll then None else Some (Wrapped e (''in '' @ d)))))"

text \<open>
  The steps of the combined adapter at one module root, in the words of the
  specification: load the units (a failure of the loader is fatal; with
  fail-on-unit-errors, any unit error is returned joined), then read and parse the manifest
  (a failure is fatal), then call the callback with directory, manifest and units, and
  return what it returns.
\<close>

definition combined_visit ::
  "Walker \<Rightarrow> ('s, 'mf) collaborators \<Rightarrow> string \<Rightarrow>
   (string \<Rightarrow> 'mf \<Rightarrow> Package list \<Rightarrow> 's \<Rightarrow> err option \<times> 's) \<Rightarrow> 's callback" where
  "combined_visit w env dir f subdir s =
     (case packages_Load env (load_config w dir) ''./...'' s of
        (Inl m, s1) \<Rightarrow> (Some (Wrapped (Opaque m) (''loading packages in '' @ subdir)), s1)
      | (Inr pkgs, s1) \<Rightarrow>
          if FailOnPackageErrors w \<and> join_package_errors pkgs \<noteq> None
          then (join_package_errors pkgs, s1)
          else
            (case os_ReadFile env (Join [subdir, ''go.mod'']) s1 of
               (Inl m, s2) \<Rightarrow>
                 (Some (Wrapped (Opaque m) (''reading '' @ Join [subdir, ''go.mod''])), s2)
             | (Inr data, s2) \<Rightarrow>
                 (case (if ParseLax w
                        then modfile_ParseLax env (Join [subdir, ''go.mod'']) data (VersionFixer w) s2
                        else modfile_Parse env (Join [subdir, ''go.mod'']) data (VersionFixer w) s2) of
                    (Inl m, s3) \<Rightarrow>
                      (Some (Wrapped (Opaque m) (''parsing '' @ Join [subdir, ''go.mod''])), s3)
                  | (Inr mf, s3) \<Rightarrow> f subdir mf pkgs s3)))"

text \<open>
  Collaborators for the examples: every file can be read, the manifest of \<open>root/a\<close> does not
  parse, and the loader returns one package named after the directory of its configuration.
  In \<open>broken_env\<close> the loader returns two packages with one error each.
\<close>

definition example_env :: "(unit, string) collaborators" where
  "example_env =
     \<lparr>os_ReadFile = (\<lambda>path s. (Inr path, s)),
      modfile_Parse = (\<lambda>path data fixer s.
         (if path = ''root/a/go.mod'' then Inl ''syntax error'' else Inr data, s)),
      modfile_ParseLax = (\<lambda>path data fixer s.
         (if path = ''root/a/go.mod'' then Inl ''syntax error'' else Inr data, s)),
      packages_Load = (\<lambda>conf pattern s. (Inr [\<lparr>PkgPath = Dir conf, Errors = []\<rparr>], s))\<rparr>"

definition broken_packages :: "Package list" where
  "broken_packages =
     [\<lparr>PkgPath = ''m/p'', Errors = [\<lparr>Pos = ''p.go:1:1'', Msg = ''undefined: x'', Kind = 3\<rparr>]\<rparr>,
      \<lparr>PkgPath = ''m/q'', Errors = [\<lparr>Pos = ''q.go:2:1'', Msg = ''undefined: y'', Kind = 3\<rparr>]\<rparr>]"

definition broken_env :: "(unit, string) collaborators" where
  "broken_env = example_env\<lparr>packages_Load := (\<lambda>conf pattern s. (Inr broken_packages, s))\<rparr>"

section \<open>Properties of the walk\<close>

lemma stat_and_visit_cases:
  assumes "stat_and_visit f dir nd s = (fl, s')"
  obtains (absent) "os_Stat_gomod nd = Some ErrNotExist" "fl = Fallthrough" "s' = s"
  | (fault) m where "os_Stat_gomod nd = Some (Opaque m)" "fl = Return (Some (Wrapped (Opaque m) (''statting '' @ Join [dir, ''go.mod''])))" "s' = s"
  | (visited) "os_Stat_gomod nd = None" "f dir s = (None, s')" "fl = Fallthrough"
  | (skipdir) e where "os_Stat_gomod nd = None" "f dir s = (Some e, s')" "errors_Is e SkipDir" "fl = Return None"
  | (failed) e where "os_Stat_gomod nd = None" "f dir s = (Some e, s')" "\<not> errors_Is e SkipDir" "fl = Return (Some (Wrapped e (''in '' @ dir)))"
proof (cases "os_Stat_gomod nd")
  case None
  obtain r s1 where fr: "f dir s = (r, s1)" by (cases "f dir s")
  show ?thesis
  proof (cases r)
    case N: None
    with None fr assms visited show ?thesis by (simp add: stat_and_visit_def)
  next
    case (Some e)
    with None fr assms skipdir failed show ?thesis
      by (cases "errors_Is e SkipDir") (simp_all add: stat_and_visit_def)
  qed
next
  case (Some e)
  then have "e = ErrNotExist \<or> (\<exists>m. e = Opaque m)"
    by (cases nd) (auto split: option.splits if_splits)
  with Some assms absent fault show ?thesis
    by (auto simp: stat_and_visit_def)
qed

lemma visit_invD:
  assumes "visit_inv I A f" "I s" "f d s = (r, s')"
  shows "r = None \<Longrightarrow> I s'"
    and "r = Some e \<Longrightarrow> errors_Is e SkipDir \<Longrightarrow> I s'"
    and "r = Some e \<Longrightarrow> \<not> errors_Is e SkipDir \<Longrightarrow> A d e s'"
  using assms unfolding visit_inv_def by fastforce+

lemma each_range_invariant:
  fixes I :: "'s \<Rightarrow> bool" and A :: "string \<Rightarrow> err \<Rightarrow> 's \<Rightarrow> bool"
  shows "visit_inv I A f \<Longrightarrow> I s \<Longrightarrow> each w f dir nd s = (r, s') \<Longrightarrow> walk_post I A r s'"
    and "visit_inv I A f \<Longrightarrow> I s \<Longrightarrow> range_entries w f dir ents s = (r, s') \<Longrightarrow> walk_post I A r s'"
proof (induction w f dir nd s and w f dir ents s arbitrary: r s' and r s' rule: each_range_entries.induct)
  case (1 w f dir s)
  obtain fl s1 where sv: "stat_and_visit f dir RegularFile s = (fl, s1)"
    by (cases "stat_and_visit f dir RegularFile s")
  from sv show ?case
  proof (cases rule: stat_and_visit_cases)
    case (fault m)
    with sv 1 show ?thesis by (auto simp: walk_post_def)
  qed simp_all
next
  case (2 w f dir sf rf ents s)
  note vi = 2(2) and Is = 2(3) and run = 2(4)
  obtain fl s1 where sv: "stat_and_visit f dir (Directory sf rf ents) s = (fl, s1)"
    by (cases "stat_and_visit f dir (Directory sf rf ents) s")
  have rest: "walk_post I A r s'" if "I s1" "fl = Fallthrough"
  proof (cases rf)
    case None
    with run sv that have "range_entries w f dir ents s1 = (r, s')" by simp
    with 2(1)[OF sv[symmetric] that(2) None vi that(1)] show ?thesis by simp
  next
    case (Some m)
    with run sv that show ?thesis by (auto simp: walk_post_def)
  qed
  from sv show ?case
  proof (cases rule: stat_and_visit_cases)
    case absent
    with rest Is show ?thesis by simp
  next
    case (fault m)
    with sv Is run show ?thesis by (auto simp: walk_post_def)
  next
    case visited
    with visit_invD(1)[OF vi Is visited(2)] rest show ?thesis by simp
  next
    case (skipdir e)
    with visit_invD(2)[OF vi Is skipdir(2)] sv run show ?thesis by (auto simp: walk_post_def)
  next
    case (failed e)
    with visit_invD(3)[OF vi Is failed(2)] sv run show ?thesis by (auto simp: walk_post_def)
  qed
next
  case (3 w f dir s)
  then show ?case by (simp add: walk_post_def)
next
  case (4 w f dir name nd rest s)
  note vi = 4(4) and Is = 4(5) and run = 4(6)
  show ?case
  proof (cases "skip_entry w name nd")
    case True
    with run have "range_entries w f dir rest s = (r, s')" by simp
    from 4(1)[OF True vi Is this] show ?thesis .
  next
    case False
    obtain r1 s1 where e1: "each w f (Join [dir, name]) nd s = (r1, s1)"
      by (cases "each w f (Join [dir, name]) nd s")
    from 4(2)[OF False vi Is e1] have wp: "walk_post I A r1 s1" .
    show ?thesis
    proof (cases r1)
      case None
      with wp have "I s1" by (simp add: walk_post_def)
      moreover from None e1 False run have "range_entries w f dir rest s1 = (r, s')" by simp
      ultimately show ?thesis using 4(3)[OF False e1[symmetric] None vi] by simp
    next
      case (Some e)
      with e1 False run wp show ?thesis by auto
    qed
  qed
qed

lemma logged_visit_inv: "visit_inv none_aborting aborted_last (logged f)"
  unfolding visit_inv_def
  by (auto simp: logged_def none_aborting_def aborted_last_def aborting_def
      split: prod.splits option.splits)

lemma aborting_is_last:
  assumes "list_all (\<lambda>x. \<not> aborting (snd x)) (butlast tr)" "i < length tr" "aborting (snd (tr ! i))"
  shows "Suc i = length tr"
proof (rule ccontr)
  assume "Suc i \<noteq> length tr"
  with assms(2) have "i < length (butlast tr)" by simp
  with assms(1) have "\<not> aborting (snd (butlast tr ! i))" by (simp add: list_all_length)
  with \<open>i < length (butlast tr)\<close> assms(3) show False by (simp add: nth_butlast)
qed

lemma logged_walk:
  assumes "each w (logged f) dir nd ([], s) = (r, (tr, s'))" "i < length tr" "tr ! i = (d, Some e)"
    "\<not> errors_Is e SkipDir"
  shows "r = Some (Wrapped e (''in '' @ d)) \<and> Suc i = length tr"
proof -
  have I0: "none_aborting ([], s)" by (simp add: none_aborting_def)
  from each_range_invariant(1)[OF logged_visit_inv I0 assms(1)]
  have wp: "walk_post none_aborting aborted_last r (tr, s')" .
  have ab: "aborting (snd (tr ! i))" using assms(3,4) by (simp add: aborting_def)
  have notI: "\<not> none_aborting (tr, s')"
    using ab assms(2) by (auto simp: none_aborting_def list_all_length)
  from wp notI obtain d0 e0 where r: "r = Some (Wrapped e0 (''in '' @ d0))"
    and al: "aborted_last d0 e0 (tr, s')"
    by (auto simp: walk_post_def split: option.splits)
  from al have bl: "list_all (\<lambda>x. \<not> aborting (snd x)) (butlast tr)" and lst: "last tr = (d0, Some e0)"
    and ne: "tr \<noteq> []"
    by (simp_all add: aborted_last_def)
  from aborting_is_last[OF bl assms(2) ab] have last: "Suc i = length tr" .
  from last have "i = length tr - 1" by simp
  with ne have "tr ! i = last tr" by (simp add: last_conv_nth)
  with lst assms(3) have "d0 = d" "e0 = e" by simp_all
  with r last show ?thesis by simp
qed

text \<open>
  C3: when a call of the callback returns the stop-all signal (\<open>filepath.SkipAll\<close>, or an
  error that wraps it and is not also the skip of a subtree, which the walk tests first),
  \<open>Walker.Each\<close> returns \<open>nil\<close> and that call is the last call of the callback.
\<close>

theorem stop_all_ends_walk:
  assumes "Each w (logged f) dir nd ([], s) = (r, (tr, s'))"
    and "i < length tr" and "tr ! i = (d, Some e)"
    and "errors_Is e SkipAll" and "\<not> errors_Is e SkipDir"
  shows "r = None \<and> Suc i = length tr"
proof -
  obtain r0 st0 where e0: "each w (logged f) dir nd ([], s) = (r0, st0)"
    by (cases "each w (logged f) dir nd ([], s)")
  with assms(1) have st0: "st0 = (tr, s')"
    by (auto simp: Each_def split: option.splits if_splits)
  from logged_walk[OF e0[unfolded st0] assms(2,3,5)]
  have "r0 = Some (Wrapped e (''in '' @ d))" and l: "Suc i = length tr" by simp_all
  with e0 assms(1,4) have "r = None" by (simp add: Each_def)
  with l show ?thesis by simp
qed

lemma skip_entry_iff: "skip_entry w name nd \<longleftrightarrow> \<not> IsDir nd \<or> skipped_name w name"
  by (auto simp: skip_entry_def skipped_name_def HasPrefix_def)

lemma IsDir_prune [simp]: "IsDir (prune w nd) = IsDir nd"
  by (cases nd) simp_all

lemma gomod_not_skipped: "\<not> skipped_name w ''go.mod''"
  by (simp add: skipped_name_def)

lemma gomod_prune_entries:
  "''go.mod'' \<in> set (map fst (prune_entries w ents)) \<longleftrightarrow> ''go.mod'' \<in> set (map fst ents)"
proof (induction ents)
  case Nil
  show ?case by simp
next
  case (Cons x ents)
  obtain name nd where x: "x = (name, nd)" by (cases x)
  show ?case
  proof (cases "IsDir nd \<and> skipped_name w name")
    case True
    then have "name \<noteq> ''go.mod''" using gomod_not_skipped by auto
    with True Cons x show ?thesis by simp
  next
    case False
    with Cons x show ?thesis by auto
  qed
qed

lemma os_Stat_gomod_prune [simp]: "os_Stat_gomod (prune w nd) = os_Stat_gomod nd"
  by (cases nd) (simp_all add: gomod_prune_entries del: set_map)

lemma stat_and_visit_prune [simp]:
  "stat_and_visit f dir (prune w nd) s = stat_and_visit f dir nd s"
  by (simp add: stat_and_visit_def)

lemma each_prune:
  "each w f dir (prune w nd) s = each w f dir nd s"
  "range_entries w f dir (prune_entries w ents) s = range_entries w f dir ents s"
proof (induction w f dir nd s and w f dir ents s rule: each_range_entries.induct)
  case (1 w f dir s)
  show ?case by simp
next
  case (2 w f dir sf rf ents s)
  have sv: "stat_and_visit f dir (Directory sf rf (prune_entries w ents)) s
    = stat_and_visit f dir (Directory sf rf ents) s"
    using stat_and_visit_prune[of f dir w "Directory sf rf ents" s] by simp
  show ?case
    using 2 by (simp add: sv split: prod.splits flow.splits option.splits)
next
  case (3 w f dir s)
  show ?case by simp
next
  case (4 w f dir name nd rest s)
  show ?case
  proof (cases "skip_entry w name nd")
    case True
    with 4(1) show ?thesis
      by (cases "IsDir nd") (auto simp: skip_entry_iff)
  next
    case False
    then have nsk: "\<not> skip_entry w name (prune w nd)" by (simp add: skip_entry_iff)
    from False have keep: "prune_entries w ((name, nd) # rest) = (name, prune w nd) # prune_entries w rest"
      by (simp add: skip_entry_iff)
    show ?thesis
      using 4(2)[OF False] 4(3)[OF False] False nsk
      by (simp add: keep del: prune_entries.simps split: prod.splits option.splits)
  qed
qed

lemma split_slash_nonempty [simp]: "split_slash p \<noteq> []"
  by (induction p) (auto split: list.splits)

lemma split_slash_free: "c \<in> set (split_slash p) \<Longrightarrow> CHR ''/'' \<notin> set c"
  by (induction p arbitrary: c) (auto split: list.splits if_splits)

lemma split_slash_single: "CHR ''/'' \<notin> set x \<Longrightarrow> split_slash x = [x]"
  by (induction x) auto

lemma split_slash_front:
  "CHR ''/'' \<notin> set x \<Longrightarrow> split_slash (x @ CHR ''/'' # q) = x # split_slash q"
  by (induction x) auto

lemma split_slash_back:
  "CHR ''/'' \<notin> set n \<Longrightarrow> split_slash (p @ CHR ''/'' # n) = split_slash p @ [n]"
proof (induction p)
  case Nil
  then show ?case by (simp add: split_slash_single)
next
  case (Cons c p)
  then show ?case by (cases "split_slash p") auto
qed

lemma split_join_slash:
  "xs \<noteq> [] \<Longrightarrow> \<forall>x\<in>set xs. CHR ''/'' \<notin> set x \<Longrightarrow> split_slash (join_slash xs) = xs"
proof (induction xs rule: join_slash.induct)
  case 1
  then show ?case by simp
next
  case (2 x)
  then show ?case by (simp add: split_slash_single)
next
  case (3 x y ys)
  then show ?case by (simp add: split_slash_front)
qed

lemma normal_clean_step:
  "normal_stack r st \<Longrightarrow> CHR ''/'' \<notin> set c \<Longrightarrow> normal_stack r (clean_step r st c)"
  by (cases st) (auto simp: clean_step_def)

lemma normal_foldl:
  "normal_stack r st \<Longrightarrow> \<forall>c\<in>set cs. CHR ''/'' \<notin> set c \<Longrightarrow>
   normal_stack r (foldl (clean_step r) st cs)"
  by (induction cs arbitrary: st) (auto simp: normal_clean_step)

lemma normal_clean_stack: "normal_stack (is_rooted p) (clean_stack p)"
  unfolding clean_stack_def
  by (rule normal_foldl) (auto dest: split_slash_free)

lemma clean_step_push:
  "normal_stack r (x # st) \<Longrightarrow> clean_step r st x = x # st"
  by (cases st) (auto simp: clean_step_def)

lemma foldl_rev_normal:
  "normal_stack r (a @ b) \<Longrightarrow> foldl (clean_step r) b (rev a) = a @ b"
proof (induction a)
  case Nil
  then show ?case by simp
next
  case (Cons x a)
  then have "normal_stack r (a @ b)" by simp
  with Cons.IH have "foldl (clean_step r) b (rev a) = a @ b" .
  moreover from Cons.prems have "normal_stack r (x # (a @ b))" by (simp only: append_Cons)
  then have "clean_step r (a @ b) x = x # a @ b" by (rule clean_step_push)
  ultimately show ?case by simp
qed

lemma normal_stack_free: "normal_stack r st \<Longrightarrow> x \<in> set st \<Longrightarrow> x \<noteq> [] \<and> CHR ''/'' \<notin> set x"
  by (induction st) (auto split: if_splits)

lemma join_slash_hd:
  "xs \<noteq> [] \<Longrightarrow> hd xs \<noteq> [] \<Longrightarrow> hd (join_slash xs) = hd (hd xs)"
  by (induction xs rule: join_slash.induct) auto

lemma join_slash_nonempty: "xs \<noteq> [] \<Longrightarrow> hd xs \<noteq> [] \<Longrightarrow> join_slash xs \<noteq> []"
  by (induction xs rule: join_slash.induct) auto

lemma is_rooted_render:
  assumes "normal_stack r st"
  shows "is_rooted (render_path r st) = r"
proof (cases r)
  case True
  then show ?thesis by (simp add: render_path_def is_rooted_def)
next
  case False
  show ?thesis
  proof (cases "st = []")
    case True
    with False show ?thesis by (simp add: render_path_def is_rooted_def)
  next
    case ne: False
    let ?xs = "rev st"
    from ne have xs: "?xs \<noteq> []" by simp
    have "hd ?xs \<in> set st" using ne by (metis hd_in_set set_rev xs)
    with assms have h: "hd ?xs \<noteq> []" "CHR ''/'' \<notin> set (hd ?xs)"
      using normal_stack_free by blast+
    then have "hd (hd ?xs) \<noteq> CHR ''/''" by (cases "hd ?xs") auto
    with join_slash_hd[OF xs h(1)] have "hd (join_slash ?xs) \<noteq> CHR ''/''" by simp
    moreover have "join_slash ?xs \<noteq> []" using join_slash_nonempty[OF xs h(1)] .
    ultimately have "\<not> is_rooted (join_slash ?xs)"
      by (cases "join_slash ?xs") (auto simp: is_rooted_def)
    with False ne show ?thesis by (simp add: render_path_def)
  qed
qed

lemma clean_stack_render:
  assumes "normal_stack r st"
  shows "clean_stack (render_path r st) = st"
proof -
  have rt: "is_rooted (render_path r st) = r" using is_rooted_render[OF assms] .
  have free: "\<forall>x\<in>set (rev st). CHR ''/'' \<notin> set x"
    using assms normal_stack_free by auto
  have fold: "foldl (clean_step r) [] (rev st) = st"
    using foldl_rev_normal[of r st "[]"] assms by simp
  show ?thesis
  proof (cases "st = []")
    case True
    then show ?thesis
      unfolding clean_stack_def rt
      by (cases r) (simp_all add: render_path_def clean_step_def)
  next
    case False
    then have sp: "split_slash (join_slash (rev st)) = rev st"
      using split_join_slash[of "rev st"] free by simp
    show ?thesis
    proof (cases r)
      case True
      have "split_slash (render_path r st) = [] # rev st"
        using True sp by (simp add: render_path_def)
      then show ?thesis
        unfolding clean_stack_def rt using fold by (simp add: clean_step_def)
    next
      case F: False
      have "split_slash (render_path r st) = rev st"
        using F False sp by (simp add: render_path_def)
      then show ?thesis
        unfolding clean_stack_def rt using fold by simp
    qed
  qed
qed

lemma Join_dir_name:
  assumes "valid_name n"
  shows "Join [d, n] = render_path (is_rooted d) (n # clean_stack d)"
proof (cases "d = []")
  case True
  from assms have sp: "split_slash n = [n]" by (simp add: valid_name_def split_slash_single)
  from assms have nr: "\<not> is_rooted n" by (cases n) (auto simp: valid_name_def is_rooted_def)
  from assms have st: "clean_step False [] n = [n]" by (simp add: clean_step_def valid_name_def)
  from True assms show ?thesis
    using nr sp st by (simp add: Join_def Clean_def clean_stack_def valid_name_def render_path_def is_rooted_def clean_step_def)
next
  case False
  from assms have free: "CHR ''/'' \<notin> set n" by (simp add: valid_name_def)
  have j: "join_slash [d, n] = d @ CHR ''/'' # n" by simp
  from False have rt: "is_rooted (d @ CHR ''/'' # n) = is_rooted d"
    by (cases d) (simp_all add: is_rooted_def)
  have ns: "normal_stack (is_rooted d) (clean_stack d)" by (rule normal_clean_stack)
  have "clean_step (is_rooted d) (clean_stack d) n = n # clean_stack d"
    using assms by (cases "clean_stack d") (auto simp: clean_step_def valid_name_def)
  then have "clean_stack (d @ CHR ''/'' # n) = n # clean_stack d"
    unfolding clean_stack_def rt split_slash_back[OF free] by simp
  with False rt show ?thesis
    by (simp add: Join_def Clean_def)
qed

lemma normal_push:
  "valid_name n \<Longrightarrow> normal_stack r st \<Longrightarrow> normal_stack r (n # st)"
  by (simp add: valid_name_def)

lemma clean_stack_Join:
  assumes "valid_name n"
  shows "clean_stack (Join [d, n]) = n # clean_stack d"
    and "is_rooted (Join [d, n]) = is_rooted d"
  using Join_dir_name[OF assms, of d] normal_push[OF assms normal_clean_stack[of d]]
  by (simp_all add: clean_stack_render is_rooted_render)

lemmas eval_simps =
  Each_def stat_and_visit_def skip_entry_def HasPrefix_def Join_def Clean_def render_path_def
  clean_stack_def is_rooted_def clean_step_def zeroWalker_def zeroLoadConfig_def logged_def
  scenario_tree_def signal_at_def

theorem stop_all_ends_walk_witness:
  "Each (zeroWalker\<lparr>IncludeVendor := True\<rparr>) (logged (signal_at ''root/a'' SkipAll)) ''root''
     scenario_tree ([], ())
   = (None, ([(''root'', None), (''root/a'', Some SkipAll)], ()))"
proof -
  let ?tr = "[(''root'', None), (''root/a'', Some SkipAll)]"
  obtain r tr s' where run: "Each (zeroWalker\<lparr>IncludeVendor := True\<rparr>)
      (logged (signal_at ''root/a'' SkipAll)) ''root'' scenario_tree ([], ()) = (r, (tr, s'))"
    by (metis surj_pair)
  from run have tr: "tr = ?tr" by (simp add: eval_simps)
  have "r = None \<and> Suc 1 = length tr"
    by (rule stop_all_ends_walk[OF run, of 1 "''root/a''" SkipAll]) (simp_all add: tr)
  with run tr show ?thesis by simp
qed

text \<open>
  C4: a walk is the walk of the tree from which every directory named \<open>vendor\<close> (unless
  \<open>IncludeVendor\<close>), named \<open>testdata\<close> (unless \<open>IncludeTestdata\<close>) or with a name that
  begins with \<open>.\<close> or \<open>_\<close> has been removed at every depth: the same calls of the callback,
  the same states, the same result. In the loop over the entries such a directory is passed
  over, whatever is in it.
\<close>

theorem skipped_never_walked:
  "Each w f dir nd s = Each w f dir (prune w nd) s \<and>
   (IsDir nd \<and> skipped_name w name \<longrightarrow>
      range_entries w f dir ((name, nd) # rest) s = range_entries w f dir rest s)"
  by (simp add: Each_def each_prune skip_entry_iff)

theorem skipped_never_walked_witness:
  "prune zeroWalker scenario_tree =
     Directory None None
       [(''a'', Directory None None [(''go.mod'', RegularFile)]),
        (''b'', Directory None None []),
        (''go.mod'', RegularFile)] \<and>
   Each zeroWalker (logged (signal_at [] SkipDir)) ''root'' scenario_tree ([], ()) =
   Each zeroWalker (logged (signal_at [] SkipDir)) ''root'' (prune zeroWalker scenario_tree) ([], ()) \<and>
   Each zeroWalker (logged (signal_at [] SkipDir)) ''root'' scenario_tree ([], ()) =
     (None, ([(''root'', None), (''root/a'', None)], ()))"
  using skipped_never_walked[of zeroWalker "logged (signal_at [] SkipDir)" "''root''" scenario_tree "([], ())"]
  by (simp add: eval_simps skipped_name_def)

text \<open>
  C2: when the callback returns the skip of a subtree (\<open>filepath.SkipDir\<close>, or an error
  that wraps it) at a directory \<open>D\<close> with a manifest, the walk of \<open>D\<close> makes this one call
  and no call below \<open>D\<close>, and ends with no error; the loop over the entries of the parent of
  \<open>D\<close> goes on with the entries after \<open>D\<close> as it would after any directory walked with no
  error.
\<close>

theorem skip_dir_prunes_branch:
  assumes "os_Stat_gomod nd = None" and "f D s = (Some e, s')" and "errors_Is e SkipDir"
  shows "each w (logged f) D nd (tr, s) = (None, (tr @ [(D, Some e)], s')) \<and>
         (D = Join [dir, name] \<and> \<not> skip_entry w name nd \<longrightarrow>
            range_entries w (logged f) dir ((name, nd) # rest) (tr, s) =
            range_entries w (logged f) dir rest (tr @ [(D, Some e)], s'))"
proof -
  have sv: "stat_and_visit (logged f) D nd (tr, s) = (Return None, (tr @ [(D, Some e)], s'))"
    using assms by (simp add: stat_and_visit_def logged_def)
  have e: "each w (logged f) D nd (tr, s) = (None, (tr @ [(D, Some e)], s'))"
    using sv by (cases nd) simp_all
  then show ?thesis by auto
qed

theorem skip_dir_prunes_branch_witness:
  "each (zeroWalker\<lparr>IncludeVendor := True\<rparr>) (logged (signal_at ''root/a'' SkipDir)) ''root''
     scenario_tree ([], ()) = (None, ([(''root'', None), (''root/a'', Some SkipDir)], ())) \<and>
   range_entries (zeroWalker\<lparr>IncludeVendor := True, IncludeTestdata := True\<rparr>)
     (logged (signal_at ''root/a'' SkipDir)) ''root'' (entries scenario_tree) ([], ())
   = (None, ([(''root/a'', Some SkipDir), (''root/b/testdata'', None)], ()))"
proof -
  let ?w = "zeroWalker\<lparr>IncludeVendor := True, IncludeTestdata := True\<rparr>"
  let ?f = "signal_at ''root/a'' SkipDir"
  let ?a = "Directory None None
           [(''go.mod'', RegularFile),
            (''vendor'', Directory None None [(''go.mod'', RegularFile)])]"
  have h1: "os_Stat_gomod ?a = None" by simp
  have h2: "?f ''root/a'' () = (Some SkipDir, ())" by (simp add: signal_at_def)
  have h3: "errors_Is SkipDir SkipDir" by simp
  have h4: "''root/a'' = Join [''root'', ''a''] \<and> \<not> skip_entry ?w ''a'' ?a"
    by (simp add: eval_simps)
  from skip_dir_prunes_branch[where f="?f" and D="''root/a''" and s="()" and e=SkipDir
      and s'="()" and nd="?a" and w="?w" and tr="[]" and dir="''root''" and name="''a''"
      and rest="tl (entries scenario_tree)", OF h1 h2 h3] h4
  have "range_entries ?w (logged ?f) ''root'' ((''a'', ?a) # tl (entries scenario_tree)) ([], ()) =
        range_entries ?w (logged ?f) ''root'' (tl (entries scenario_tree)) ([(''root/a'', Some SkipDir)], ())"
    by simp
  then show ?thesis by (simp add: eval_simps)
qed

text \<open>
  C10: the walk of a root directory reads no name of the root. Whatever the path \<open>dir\<close> is
  (\<open>vendor\<close>, \<open>testdata\<close>, a name that begins with \<open>.\<close> or \<open>_\<close>), the root is tested for its
  manifest, the callback is called there when it has one, and the loop over its entries
  runs, which walks the entries that are not left out.
\<close>

theorem root_name_not_filtered:
  "each w (logged f) dir (Directory None None ents) (tr, s) =
     (if ''go.mod'' \<in> set (map fst ents) then
        (case f dir s of
           (None, s') \<Rightarrow> range_entries w (logged f) dir ents (tr @ [(dir, None)], s')
         | (Some e, s') \<Rightarrow>
             (if errors_Is e SkipDir then None else Some (Wrapped e (''in '' @ dir)),
              (tr @ [(dir, Some e)], s')))
      else range_entries w (logged f) dir ents (tr, s))"
  by (simp add: stat_and_visit_def logged_def split: prod.splits option.splits)

theorem root_name_not_filtered_witness:
  "Each zeroWalker (logged (signal_at [] SkipDir)) ''vendor''
     (Directory None None [(''_x'', Directory None None [(''go.mod'', RegularFile)]),
        (''go.mod'', RegularFile), (''sub'', Directory None None [(''go.mod'', RegularFile)])])
     ([], ()) = (None, ([(''vendor'', None), (''vendor/sub'', None)], ())) \<and>
   Each zeroWalker (logged (signal_at [] SkipDir)) ''x/.git''
     (Directory None None [(''sub'', Directory None None [(''go.mod'', RegularFile)])])
     ([], ()) = (None, ([(''x/.git/sub'', None)], ()))"
  using root_name_not_filtered[of zeroWalker "signal_at [] SkipDir" "''vendor''"
      "[(''_x'', Directory None None [(''go.mod'', RegularFile)]),
        (''go.mod'', RegularFile), (''sub'', Directory None None [(''go.mod'', RegularFile)])]" "[]" "()"]
  by (simp add: eval_simps)

lemma walk_no_signal:
  assumes nosig: "\<forall>d s. fst (f d s) = None"
  shows "fault_free w nd \<Longrightarrow> \<exists>s'. each w (logged f) dir nd (tr, s) =
           (None, (tr @ map (\<lambda>d. (d, None)) (module_dirs w dir nd), s'))"
    and "fault_free_entries w ents \<Longrightarrow> \<exists>s'. range_entries w (logged f) dir ents (tr, s) =
           (None, (tr @ map (\<lambda>d. (d, None)) (module_dirs_entries w dir ents), s'))"
proof (induction w dir nd and w dir ents arbitrary: tr s and tr s
    rule: module_dirs_module_dirs_entries.induct)
  case (1 w dir)
  then show ?case by simp
next
  case (2 w dir sf rf ents)
  from 2(2) have ff: "sf = None" "rf = None" "fault_free_entries w ents" by simp_all
  show ?case
  proof (cases "''go.mod'' \<in> set (map fst ents)")
    case True
    obtain s1 where f1: "f dir s = (None, s1)" using nosig by (metis prod.collapse)
    have sv: "stat_and_visit (logged f) dir (Directory sf rf ents) (tr, s)
        = (Fallthrough, (tr @ [(dir, None)], s1))"
      using True ff f1 by (simp add: stat_and_visit_def logged_def)
    from 2(1)[OF ff(3), of "tr @ [(dir, None)]" s1] obtain s' where
      "range_entries w (logged f) dir ents (tr @ [(dir, None)], s1) =
         (None, ((tr @ [(dir, None)]) @ map (\<lambda>d. (d, None)) (module_dirs_entries w dir ents), s'))"
      by blast
    with sv ff True show ?thesis by simp
  next
    case False
    have sv: "stat_and_visit (logged f) dir (Directory sf rf ents) (tr, s) = (Fallthrough, (tr, s))"
      using False ff by (simp add: stat_and_visit_def)
    from 2(1)[OF ff(3), of tr s] sv ff False show ?thesis by simp
  qed
next
  case (3 w dir)
  then show ?case by simp
next
  case (4 w dir name nd rest)
  from 4(3) have ffr: "fault_free_entries w rest" by simp
  show ?case
  proof (cases "IsDir nd \<and> \<not> skipped_name w name")
    case True
    then have nsk: "\<not> skip_entry w name nd" by (simp add: skip_entry_iff)
    from 4(3) True have "fault_free w nd" by simp
    from 4(1)[OF True this, of tr s] obtain s1 where
      e1: "each w (logged f) (Join [dir, name]) nd (tr, s) =
        (None, (tr @ map (\<lambda>d. (d, None)) (module_dirs w (Join [dir, name]) nd), s1))" by blast
    from 4(2)[OF ffr, of "tr @ map (\<lambda>d. (d, None)) (module_dirs w (Join [dir, name]) nd)" s1]
    obtain s' where "range_entries w (logged f) dir rest
        (tr @ map (\<lambda>d. (d, None)) (module_dirs w (Join [dir, name]) nd), s1) =
        (None, ((tr @ map (\<lambda>d. (d, None)) (module_dirs w (Join [dir, name]) nd)) @
           map (\<lambda>d. (d, None)) (module_dirs_entries w dir rest), s'))" by blast
    with e1 nsk True show ?thesis by simp
  next
    case False
    then have sk: "skip_entry w name nd" by (simp add: skip_entry_iff)
    from False have "module_dirs_entries w dir ((name, nd) # rest) = module_dirs_entries w dir rest"
      by auto
    with 4(2)[OF ffr, of tr s] sk show ?thesis by simp
  qed
qed

lemma length_module_dirs:
  "length (module_dirs w dir nd) = count_modules w nd"
  "length (module_dirs_entries w dir ents) = count_modules_entries w ents"
  by (induction w dir nd and w dir ents rule: module_dirs_module_dirs_entries.induct) simp_all

lemma module_dirs_stack:
  "wf_tree nd \<Longrightarrow> p \<in> set (module_dirs w dir nd) \<Longrightarrow>
     \<exists>ns. clean_stack p = ns @ clean_stack dir \<and> is_rooted p = is_rooted dir"
  "wf_entries ents \<Longrightarrow> p \<in> set (module_dirs_entries w dir ents) \<Longrightarrow>
     \<exists>ns n. n \<in> set (map fst ents) \<and> clean_stack p = ns @ n # clean_stack dir \<and>
       is_rooted p = is_rooted dir"
proof (induction w dir nd and w dir ents arbitrary: p and p
    rule: module_dirs_module_dirs_entries.induct)
  case (1 w dir)
  then show ?case by simp
next
  case (2 w dir sf rf ents)
  from 2(3) have "p = dir \<or> p \<in> set (module_dirs_entries w dir ents)"
    by (auto split: if_splits)
  then show ?case
  proof
    assume "p = dir"
    then show ?thesis by simp
  next
    assume "p \<in> set (module_dirs_entries w dir ents)"
    with 2(1)[of p] 2(2) obtain ns n where
      "clean_stack p = ns @ n # clean_stack dir" "is_rooted p = is_rooted dir" by auto
    then have "clean_stack p = (ns @ [n]) @ clean_stack dir \<and> is_rooted p = is_rooted dir" by simp
    then show ?thesis by blast
  qed
next
  case (3 w dir)
  then show ?case by simp
next
  case (4 w dir name nd rest)
  from 4(3) have vn: "valid_name name" and wfn: "wf_tree nd" and wfr: "wf_entries rest" by simp_all
  from 4(4) consider
    (here) "IsDir nd \<and> \<not> skipped_name w name" "p \<in> set (module_dirs w (Join [dir, name]) nd)"
    | (later) "p \<in> set (module_dirs_entries w dir rest)"
    by (auto split: if_splits)
  then show ?case
  proof cases
    case here
    from 4(1)[OF here(1) wfn here(2)] obtain ns where
      "clean_stack p = ns @ clean_stack (Join [dir, name])" "is_rooted p = is_rooted (Join [dir, name])"
      by blast
    with clean_stack_Join[OF vn, of dir]
    have "clean_stack p = ns @ name # clean_stack dir" "is_rooted p = is_rooted dir" by simp_all
    then show ?thesis by auto
  next
    case later
    from 4(2)[OF wfr later] show ?thesis by auto
  qed
qed

lemma same_base: "xs @ a # base = ys @ b # base \<Longrightarrow> a = b"
  using append_eq_append_conv[of "a # base" "b # base" xs ys] by simp

lemma distinct_module_dirs:
  "wf_tree nd \<Longrightarrow> distinct (module_dirs w dir nd)"
  "wf_entries ents \<Longrightarrow> distinct (map fst ents) \<Longrightarrow> distinct (module_dirs_entries w dir ents)"
proof (induction w dir nd and w dir ents rule: module_dirs_module_dirs_entries.induct)
  case (1 w dir)
  then show ?case by simp
next
  case (2 w dir sf rf ents)
  from 2(2) have wfe: "wf_entries ents" and dn: "distinct (map fst ents)" by simp_all
  have "dir \<notin> set (module_dirs_entries w dir ents)"
  proof
    assume "dir \<in> set (module_dirs_entries w dir ents)"
    from module_dirs_stack(2)[OF wfe this] obtain ns n where
      "clean_stack dir = ns @ n # clean_stack dir" by blast
    then have "length (clean_stack dir) = length (ns @ n # clean_stack dir)" by simp
    then show False by simp
  qed
  with 2(1)[OF wfe dn] show ?case by simp
next
  case (3 w dir)
  then show ?case by simp
next
  case (4 w dir name nd rest)
  from 4(3) have vn: "valid_name name" and wfn: "wf_tree nd" and wfr: "wf_entries rest" by simp_all
  from 4(4) have nn: "name \<notin> set (map fst rest)" and dr: "distinct (map fst rest)" by simp_all
  have dist_rest: "distinct (module_dirs_entries w dir rest)" using 4(2)[OF wfr dr] .
  show ?case
  proof (cases "IsDir nd \<and> \<not> skipped_name w name")
    case True
    have d1: "distinct (module_dirs w (Join [dir, name]) nd)" using 4(1)[OF True wfn] .
    have disj: "set (module_dirs w (Join [dir, name]) nd) \<inter> set (module_dirs_entries w dir rest) = {}"
    proof (rule ccontr)
      assume "\<not> ?thesis"
      then obtain p where p1: "p \<in> set (module_dirs w (Join [dir, name]) nd)"
        and p2: "p \<in> set (module_dirs_entries w dir rest)" by blast
      from module_dirs_stack(1)[OF wfn p1] obtain ns where
        "clean_stack p = ns @ clean_stack (Join [dir, name])" by blast
      with clean_stack_Join(1)[OF vn, of dir] have s1: "clean_stack p = ns @ name # clean_stack dir"
        by simp
      from module_dirs_stack(2)[OF wfr p2] obtain ns' n' where
        n': "n' \<in> set (map fst rest)" and s2: "clean_stack p = ns' @ n' # clean_stack dir" by blast
      from s1 s2 have "name = n'" using same_base by metis
      with n' nn show False by simp
    qed
    from True d1 dist_rest disj show ?thesis by simp
  next
    case False
    then have "module_dirs_entries w dir ((name, nd) # rest) = module_dirs_entries w dir rest"
      by auto
    with dist_rest show ?thesis by simp
  qed
qed

lemma module_dirs_below:
  assumes "wf_tree nd" "p \<in> set (module_dirs w dir nd)"
  shows "path_below dir p"
proof -
  from module_dirs_stack(1)[OF assms] obtain ns where
    "clean_stack p = ns @ clean_stack dir" "is_rooted p = is_rooted dir" by blast
  then show ?thesis by (simp add: path_below_def)
qed

text \<open>
  C1, amended: when no \<open>os.Stat\<close> and no \<open>os.ReadDir\<close> fails and the callback returns \<open>nil\<close>
  at every call, \<open>Walker.Each\<close> returns \<open>nil\<close> and calls the callback exactly once for each
  directory with a manifest that is reached through directories that are not left out by
  their names: \<open>count_modules\<close> calls, in depth-first pre-order, with paths that differ from
  each other and are below the root or the root itself.
\<close>

theorem each_module_once:
  assumes "\<forall>d s. fst (f d s) = None" and "fault_free w nd" and "wf_tree nd"
  shows "\<exists>s'. Each w (logged f) dir nd ([], s) =
            (None, (map (\<lambda>d. (d, None)) (module_dirs w dir nd), s')) \<and>
          length (module_dirs w dir nd) = count_modules w nd \<and>
          distinct (module_dirs w dir nd) \<and>
          (\<forall>p\<in>set (module_dirs w dir nd). path_below dir p)"
proof -
  from walk_no_signal(1)[OF assms(1,2), of dir "[]" s] obtain s' where
    "each w (logged f) dir nd ([], s) = (None, (map (\<lambda>d. (d, None)) (module_dirs w dir nd), s'))"
    by auto
  then have "Each w (logged f) dir nd ([], s) =
      (None, (map (\<lambda>d. (d, None)) (module_dirs w dir nd), s'))"
    by (simp add: Each_def)
  with length_module_dirs(1)[of w dir nd] distinct_module_dirs(1)[OF assms(3), of w dir]
    module_dirs_below[OF assms(3)]
  show ?thesis by blast
qed

theorem each_module_once_witness:
  "Each zeroWalker (logged no_signal) ''.'' scenario_tree ([], ()) =
     (None, ([(''.'', None), (''a'', None)], ())) \<and>
   module_dirs zeroWalker ''.'' scenario_tree = [''.'', ''a''] \<and>
   count_modules zeroWalker scenario_tree = 2 \<and>
   path_below ''.'' ''a''"
proof -
  have h1: "\<forall>d s. fst (no_signal d s) = None" by (simp add: no_signal_def)
  have h2: "fault_free zeroWalker scenario_tree"
    by (simp add: scenario_tree_def skipped_name_def zeroWalker_def)
  have h3: "wf_tree scenario_tree" by (simp add: scenario_tree_def valid_name_def)
  have md: "module_dirs zeroWalker ''.'' scenario_tree = [''.'', ''a'']"
    by (simp add: eval_simps skipped_name_def)
  from each_module_once[OF h1 h2 h3, of "''.''" "()"] md
  show ?thesis by auto
qed

text \<open>
  C1 as stated fails on the tree of the scenario: four directories have a manifest, and the
  callback is called twice, for \<open>vendor\<close> and \<open>testdata\<close> are left out.
\<close>

theorem each_module_once_counterexample:
  "manifest_dirs scenario_tree = 4 \<and>
   Each zeroWalker (logged no_signal) ''root'' scenario_tree ([], ()) =
     (None, ([(''root'', None), (''root/a'', None)], ())) \<and>
   length (fst (snd (Each zeroWalker (logged no_signal) ''root'' scenario_tree ([], ()))))
     \<noteq> manifest_dirs scenario_tree"
  by (simp add: eval_simps no_signal_def)

lemma emits_visit_inv:
  assumes "emits V R"
  shows "visit_inv (rounds_running R) (rounds_aborted R) V"
  unfolding visit_inv_def
proof (intro allI impI)
  fix d st r st'
  assume I: "rounds_running R st" and run: "V d st = (r, st')"
  obtain s log where st: "st = (s, log)" by (cases st)
  from assms obtain r1 s1 evs where v: "V d (s, log) = (r1, (s1, log @ evs))" and R: "R d r1 evs"
    unfolding emits_def by blast
  from v run st have r1: "r1 = r" and st': "st' = (s1, log @ evs)" by simp_all
  from I st obtain rs where log: "log = concat (map (\<lambda>x. snd (snd x)) rs)"
    and ok: "\<forall>x\<in>set rs. R (fst x) (fst (snd x)) (snd (snd x)) \<and> \<not> aborting (fst (snd x))"
    unfolding rounds_running_def by auto
  have ext: "\<not> aborting r \<Longrightarrow> rounds_running R st'"
  proof -
    assume na: "\<not> aborting r"
    have "snd st' = concat (map (\<lambda>x. snd (snd x)) (rs @ [(d, r, evs)]))"
      using st' log by simp
    moreover have "\<forall>x\<in>set (rs @ [(d, r, evs)]).
        R (fst x) (fst (snd x)) (snd (snd x)) \<and> \<not> aborting (fst (snd x))"
      using ok R r1 na by auto
    ultimately show ?thesis unfolding rounds_running_def by blast
  qed
  show "case r of None \<Rightarrow> rounds_running R st'
        | Some e \<Rightarrow> if errors_Is e SkipDir then rounds_running R st' else rounds_aborted R d e st'"
  proof (cases r)
    case None
    with ext show ?thesis by (simp add: aborting_def)
  next
    case (Some e)
    show ?thesis
    proof (cases "errors_Is e SkipDir")
      case True
      with Some ext show ?thesis by (simp add: aborting_def)
    next
      case False
      have "rounds_aborted R d e st'"
        unfolding rounds_aborted_def using st' log ok R r1 Some by auto
      with Some False show ?thesis by simp
    qed
  qed
qed

lemma rounds_of_walk:
  assumes em: "emits V R" and run: "Each w V dir nd (s, []) = (r, (s', log))"
  shows "(\<exists>rs. log = concat (map (\<lambda>x. snd (snd x)) rs) \<and>
            (\<forall>x\<in>set rs. R (fst x) (fst (snd x)) (snd (snd x)) \<and> \<not> aborting (fst (snd x))) \<and>
            (r = None \<or> (\<exists>e. r = Some e \<and> fs_failure e))) \<or>
         (\<exists>rs d e evs. log = concat (map (\<lambda>x. snd (snd x)) rs) @ evs \<and>
            (\<forall>x\<in>set rs. R (fst x) (fst (snd x)) (snd (snd x)) \<and> \<not> aborting (fst (snd x))) \<and>
            R d (Some e) evs \<and> \<not> errors_Is e SkipDir \<and>
            r = (if errors_Is e SkipAll then None else Some (Wrapped e (''in '' @ d))))"
proof -
  obtain r0 st0 where e0: "each w V dir nd (s, []) = (r0, st0)"
    by (cases "each w V dir nd (s, [])")
  with run have st0: "st0 = (s', log)"
    by (auto simp: Each_def split: option.splits if_splits)
  have I0: "rounds_running R (s, [])"
    unfolding rounds_running_def by (rule exI[of _ "[]"]) simp
  from each_range_invariant(1)[OF emits_visit_inv[OF em] I0 e0] st0
  have wp: "walk_post (rounds_running R) (rounds_aborted R) r0 (s', log)" by simp
  show ?thesis
  proof (cases r0)
    case None
    with wp have "rounds_running R (s', log)" by (simp add: walk_post_def)
    moreover from None e0 run have "r = None" by (simp add: Each_def)
    ultimately show ?thesis unfolding rounds_running_def by auto
  next
    case (Some e1)
    with wp consider
      (fs) m p where "rounds_running R (s', log)" "e1 = Wrapped (Opaque m) p"
      | (ab) d e where "e1 = Wrapped e (''in '' @ d)" "\<not> errors_Is e SkipDir"
          "rounds_aborted R d e (s', log)"
      by (auto simp: walk_post_def)
    then show ?thesis
    proof cases
      case fs
      with Some e0 run have "r = Some e1" by (simp add: Each_def)
      with fs show ?thesis unfolding rounds_running_def by auto
    next
      case ab
      with Some e0 run have "r = (if errors_Is e SkipAll then None else Some (Wrapped e (''in '' @ d)))"
        by (cases "errors_Is e SkipAll") (simp_all add: Each_def)
      then have rr: "r = (if errors_Is e SkipAll then None else Some (Wrapped e (''in '' @ d)))" .
      from ab(3) obtain rs evs where
        l: "log = concat (map (\<lambda>x. snd (snd x)) rs) @ evs"
        and ok: "\<forall>x\<in>set rs. R (fst x) (fst (snd x)) (snd (snd x)) \<and> \<not> aborting (fst (snd x))"
        and Rd: "R d (Some e) evs"
        unfolding rounds_aborted_def by auto
      have "\<exists>rs d e evs. log = concat (map (\<lambda>x. snd (snd x)) rs) @ evs \<and>
            (\<forall>x\<in>set rs. R (fst x) (fst (snd x)) (snd (snd x)) \<and> \<not> aborting (fst (snd x))) \<and>
            R d (Some e) evs \<and> \<not> errors_Is e SkipDir \<and>
            r = (if errors_Is e SkipAll then None else Some (Wrapped e (''in '' @ d)))"
        using l ok Rd ab(2) rr by blast
      then show ?thesis by (rule disjI2)
    qed
  qed
qed

lemma withGomod_traced:
  "\<exists>r s' evs. withGomod w (traced env) dir subdir (\<lambda>d mf. traced_call d (g d mf)) (s, log)
       = (r, (s', log @ evs)) \<and> gomod_visit_rel w subdir r evs"
proof -
  let ?p = "Join [subdir, ''go.mod'']"
  obtain res s1 where rf: "os_ReadFile env ?p s = (res, s1)" by (cases "os_ReadFile env ?p s")
  show ?thesis
  proof (cases res)
    case (Inl m)
    with rf show ?thesis
      by (simp add: withGomod_def traced_def gomod_visit_rel_def Let_def)
  next
    case (Inr data)
    obtain pres s2 where pf: "(if ParseLax w then modfile_ParseLax env ?p data (VersionFixer w) s1
        else modfile_Parse env ?p data (VersionFixer w) s1) = (pres, s2)"
      by (metis surj_pair)
    show ?thesis
    proof (cases pres)
      case (Inl m)
      with rf Inr pf show ?thesis
        by (cases "ParseLax w") (simp_all add: withGomod_def traced_def gomod_visit_rel_def Let_def)
    next
      case pr: (Inr mf)
      obtain r s3 where gf: "g subdir mf s2 = (r, s3)" by (cases "g subdir mf s2")
      with rf Inr pf pr show ?thesis
        by (cases "ParseLax w")
          (simp_all add: withGomod_def traced_def gomod_visit_rel_def traced_call_def gomod_round_def Let_def)
    qed
  qed
qed

lemma gomod_emits:
  "emits (\<lambda>subdir. withGomod w (traced env) dir subdir (\<lambda>d mf. traced_call d (f d mf)))
     (gomod_visit_rel w)"
  unfolding emits_def using withGomod_traced by fast

lemma gomod_complete:
  assumes "gomod_visit_rel w d r evs" "\<not> aborting r"
  shows "evs = gomod_round w (d, r)"
  using assms by (auto simp: gomod_visit_rel_def aborting_def)

lemma gomod_rounds_complete:
  assumes "\<forall>x\<in>set rs. gomod_visit_rel w (fst x) (fst (snd x)) (snd (snd x)) \<and> \<not> aborting (fst (snd x))"
  shows "\<exists>rs'. concat (map (\<lambda>x. snd (snd x)) rs) = concat (map (gomod_round w) rs')"
  using assms
proof (induction rs)
  case Nil
  have "concat (map (\<lambda>x. snd (snd x)) []) = concat (map (gomod_round w) [])" by simp
  then show ?case by blast
next
  case (Cons x rs)
  then obtain rs' where "concat (map (\<lambda>x. snd (snd x)) rs) = concat (map (gomod_round w) rs')"
    by auto
  moreover from Cons.prems have "snd (snd x) = gomod_round w (fst x, fst (snd x))"
    using gomod_complete by simp
  ultimately have "concat (map (\<lambda>x. snd (snd x)) (x # rs))
      = concat (map (gomod_round w) ((fst x, fst (snd x)) # rs'))" by simp
  then show ?case by blast
qed

lemma gomod_rounds_no_failure:
  "ev \<in> set (concat (map (gomod_round w) rs)) \<Longrightarrow> \<not> failed_event ev"
  by (induction rs) (auto simp: gomod_round_def)

text \<open>
  C5: when, in a walk of \<open>EachGomod\<close>, the manifest of a module root cannot be read or does
  not parse, this failure is the last event of the walk: the callback is called neither at
  that root nor afterwards, every call of the callback before it came after the read and
  the parse of the manifest of its own directory, and \<open>EachGomod\<close> returns the failure in the
  context of the path of the manifest, in the context of the directory.
\<close>

theorem bad_manifest_aborts:
  assumes run: "EachGomod w (traced env) dir (\<lambda>d mf. traced_call d (f d mf)) nd (s, []) = (r, (s', log))"
    and bad: "ReadFileEv p (Some m) \<in> set log \<or> ParseEv lax p (Some m) \<in> set log"
  shows "\<exists>rs d. p = Join [d, ''go.mod''] \<and>
     ((log = concat (map (gomod_round w) rs) @ [ReadFileEv p (Some m)] \<and>
       r = Some (Wrapped (Wrapped (Opaque m) (''reading '' @ p)) (''in '' @ d))) \<or>
      (log = concat (map (gomod_round w) rs) @ [ReadFileEv p None, ParseEv (ParseLax w) p (Some m)] \<and>
       r = Some (Wrapped (Wrapped (Opaque m) (''parsing '' @ p)) (''in '' @ d))))"
proof -
  from bad obtain ev where ev: "ev \<in> set log" "failed_event ev"
    "ev = ReadFileEv p (Some m) \<or> ev = ParseEv lax p (Some m)" by auto
  from rounds_of_walk[OF gomod_emits run[unfolded EachGomod_def]]
  consider
    (finished) rs where "log = concat (map (\<lambda>x. snd (snd x)) rs)"
      "\<forall>x\<in>set rs. gomod_visit_rel w (fst x) (fst (snd x)) (snd (snd x)) \<and> \<not> aborting (fst (snd x))"
    | (aborted) rs d e evs where "log = concat (map (\<lambda>x. snd (snd x)) rs) @ evs"
      "\<forall>x\<in>set rs. gomod_visit_rel w (fst x) (fst (snd x)) (snd (snd x)) \<and> \<not> aborting (fst (snd x))"
      "gomod_visit_rel w d (Some e) evs" "\<not> errors_Is e SkipDir"
      "r = (if errors_Is e SkipAll then None else Some (Wrapped e (''in '' @ d)))"
    by blast
  then show ?thesis
  proof cases
    case finished
    from gomod_rounds_complete[OF finished(2)] finished(1) obtain rs' where
      "log = concat (map (gomod_round w) rs')" by auto
    with ev(1,2) gomod_rounds_no_failure show ?thesis by blast
  next
    case aborted
    let ?q = "Join [d, ''go.mod'']"
    from gomod_rounds_complete[OF aborted(2)] aborted(1) obtain rs' where
      pre: "log = concat (map (gomod_round w) rs') @ evs" by auto
    have "ev \<notin> set (concat (map (gomod_round w) rs'))"
      using ev(2) gomod_rounds_no_failure by blast
    with ev(1) pre have inev: "ev \<in> set evs" by simp
    from aborted(3) consider
      (rd) m' where "evs = [ReadFileEv ?q (Some m')]" "e = Wrapped (Opaque m') (''reading '' @ ?q)"
      | (prs) m' where "evs = [ReadFileEv ?q None, ParseEv (ParseLax w) ?q (Some m')]"
          "e = Wrapped (Opaque m') (''parsing '' @ ?q)"
      | (call) "evs = gomod_round w (d, Some e)"
      unfolding gomod_visit_rel_def by auto
    then show ?thesis
    proof cases
      case rd
      with inev ev(3) have "p = ?q" "m' = m" by auto
      with rd pre aborted(5) show ?thesis by auto
    next
      case prs
      with inev ev(2,3) have "p = ?q" "m' = m" by auto
      with prs pre aborted(5) show ?thesis by auto
    next
      case call
      with inev ev(2) show ?thesis by (auto simp: gomod_round_def)
    qed
  qed
qed

lemma opt_constituents_Join:
  "opt_constituents (errors_Join [acc, Some x]) = opt_constituents acc @ constituents x"
  by (cases acc) (simp_all add: errors_Join_def opt_constituents_def List.map_filter_simps)

lemma opt_constituents_inner:
  "opt_constituents (foldl (\<lambda>e pkgErr. errors_Join [e, Some (PackageLoadError p (PackagesError pkgErr))]) acc errs)
   = opt_constituents acc @ map (\<lambda>e. PackageLoadError p (PackagesError e)) errs"
  by (induction errs arbitrary: acc) (simp_all add: opt_constituents_Join)

lemma opt_constituents_outer:
  "opt_constituents (foldl (\<lambda>e pkg.
        foldl (\<lambda>e pkgErr. errors_Join [e, Some (PackageLoadError (PkgPath pkg) (PackagesError pkgErr))])
          e (Errors pkg)) acc pkgs)
   = opt_constituents acc @ tagged_errors pkgs"
  by (induction pkgs arbitrary: acc) (simp_all add: opt_constituents_inner tagged_errors_def)

lemma constituents_join_package_errors:
  "opt_constituents (join_package_errors pkgs) = tagged_errors pkgs"
  unfolding join_package_errors_def
  using opt_constituents_outer[of None pkgs] by (simp add: opt_constituents_def)

lemma join_package_errors_Some:
  assumes "concat (map Errors pkgs) \<noteq> []"
  shows "\<exists>agg. join_package_errors pkgs = Some agg \<and> constituents agg = tagged_errors pkgs"
proof -
  from assms have "tagged_errors pkgs \<noteq> []" by (auto simp: tagged_errors_def)
  with constituents_join_package_errors[of pkgs] show ?thesis
    by (cases "join_package_errors pkgs") (auto simp: opt_constituents_def)
qed

lemma join_package_errors_None:
  assumes "concat (map Errors pkgs) = []"
  shows "join_package_errors pkgs = None"
proof -
  have "foldl (\<lambda>e pkg.
        foldl (\<lambda>e pkgErr. errors_Join [e, Some (PackageLoadError (PkgPath pkg) (PackagesError pkgErr))])
          e (Errors pkg)) acc pkgs = acc" for acc
    using assms by (induction pkgs arbitrary: acc) simp_all
  then show ?thesis by (simp add: join_package_errors_def)
qed

lemma errors_Is_refl:
  "errors_Is e e"
  by (cases e) simp_all

lemma constituent_reachable:
  "x \<in> set (constituents e) \<Longrightarrow> errors_Is e x"
  "(\<exists>e\<in>set es. x \<in> set (constituents e)) \<Longrightarrow> errors_Is_any es x"
proof (induction e x and es x rule: errors_Is_errors_Is_any.induct)
  case (7 es target)
  then show ?case by auto
next
  case (10 e es target)
  then show ?case by auto
qed (auto simp: errors_Is_refl)

lemma errors_Is_constituent:
  "errors_Is e t \<Longrightarrow> \<not> is_join t \<Longrightarrow> \<exists>x\<in>set (constituents e). errors_Is x t"
  "errors_Is_any es t \<Longrightarrow> \<not> is_join t \<Longrightarrow> \<exists>e\<in>set es. \<exists>x\<in>set (constituents e). errors_Is x t"
proof (induction e t and es t rule: errors_Is_errors_Is_any.induct)
  case (7 es target)
  then show ?case by (auto split: if_splits)
next
  case (10 e es target)
  then show ?case by (auto split: if_splits)
qed (auto split: if_splits)

lemma tagged_no_signal:
  assumes "x \<in> set (tagged_errors pkgs)"
  shows "\<not> errors_Is x SkipDir \<and> \<not> errors_Is x SkipAll"
  using assms by (auto simp: tagged_errors_def)

lemma aggregate_no_signal:
  assumes "join_package_errors pkgs = Some agg"
  shows "\<not> errors_Is agg SkipDir" "\<not> errors_Is agg SkipAll"
proof -
  from assms constituents_join_package_errors[of pkgs]
  have c: "constituents agg = tagged_errors pkgs" by (simp add: opt_constituents_def)
  show "\<not> errors_Is agg SkipDir"
    using errors_Is_constituent(1)[of agg SkipDir] c tagged_no_signal by auto
  show "\<not> errors_Is agg SkipAll"
    using errors_Is_constituent(1)[of agg SkipAll] c tagged_no_signal by auto
qed

lemma load_visit_traced:
  "\<exists>r s' evs. load_visit w (traced env) c (\<lambda>d pkgs. traced_call d (g d pkgs)) subdir (s, log)
       = (r, (s', log @ evs)) \<and> load_visit_rel w c subdir r evs"
proof -
  obtain res s1 where lf: "packages_Load env c ''./...'' s = (res, s1)"
    by (cases "packages_Load env c ''./...'' s")
  show ?thesis
  proof (cases res)
    case (Inl m)
    with lf show ?thesis
      by (simp add: load_visit_def traced_def load_visit_rel_def)
  next
    case (Inr pkgs)
    show ?thesis
    proof (cases "if FailOnPackageErrors w then join_package_errors pkgs else None")
      case None
      obtain r s2 where gf: "g subdir pkgs s1 = (r, s2)" by (cases "g subdir pkgs s1")
      have "load_visit w (traced env) c (\<lambda>d pkgs. traced_call d (g d pkgs)) subdir (s, log)
          = (r, (s2, log @ load_round c (subdir, pkgs, r)))"
        using lf Inr None gf
        by (simp add: load_visit_def traced_def traced_call_def load_round_def)
      moreover have "load_visit_rel w c subdir r (load_round c (subdir, pkgs, r))"
        unfolding load_visit_rel_def using None by (auto split: if_splits)
      ultimately show ?thesis by blast
    next
      case (Some agg)
      then have fo: "FailOnPackageErrors w" "join_package_errors pkgs = Some agg"
        by (auto split: if_splits)
      have "load_visit w (traced env) c (\<lambda>d pkgs. traced_call d (g d pkgs)) subdir (s, log)
          = (Some agg, (s1, log @ [LoadEv c (Inr pkgs)]))"
        using lf Inr Some by (simp add: load_visit_def traced_def)
      moreover have "load_visit_rel w c subdir (Some agg) [LoadEv c (Inr pkgs)]"
        unfolding load_visit_rel_def using fo by auto
      ultimately show ?thesis by blast
    qed
  qed
qed

lemma load_emits:
  "emits (load_visit w (traced env) c (\<lambda>d pkgs. traced_call d (f d pkgs))) (load_visit_rel w c)"
  unfolding emits_def using load_visit_traced by fast

lemma load_complete:
  assumes "load_visit_rel w c d r evs" "\<not> aborting r"
  shows "\<exists>pkgs. evs = load_round c (d, pkgs, r) \<and>
           (if FailOnPackageErrors w then join_package_errors pkgs = None else True)"
  using assms aggregate_no_signal(1)
  by (auto simp: load_visit_rel_def aborting_def)

lemma load_rounds_complete:
  assumes "\<forall>x\<in>set rs. load_visit_rel w c (fst x) (fst (snd x)) (snd (snd x)) \<and> \<not> aborting (fst (snd x))"
  shows "\<exists>rs'. concat (map (\<lambda>x. snd (snd x)) rs) = concat (map (load_round c) rs') \<and>
           list_all (passes_policy w) rs'"
  using assms
proof (induction rs)
  case Nil
  have "concat (map (\<lambda>x. snd (snd x)) []) = concat (map (load_round c) []) \<and>
      list_all (passes_policy w) []" by simp
  then show ?case by blast
next
  case (Cons x rs)
  then obtain rs' where rs': "concat (map (\<lambda>x. snd (snd x)) rs) = concat (map (load_round c) rs')"
    "list_all (passes_policy w) rs'" by auto
  from Cons.prems load_complete[of w c "fst x" "fst (snd x)" "snd (snd x)"] obtain pkgs where
    x: "snd (snd x) = load_round c (fst x, pkgs, fst (snd x))"
    "passes_policy w (fst x, pkgs, fst (snd x))"
    by (auto simp: passes_policy_def)
  with rs' have "concat (map (\<lambda>x. snd (snd x)) (x # rs))
      = concat (map (load_round c) ((fst x, pkgs, fst (snd x)) # rs')) \<and>
      list_all (passes_policy w) ((fst x, pkgs, fst (snd x)) # rs')" by simp
  then show ?case by blast
qed

lemma load_rounds_events:
  "ev \<in> set (concat (map (load_round c) rs)) \<Longrightarrow>
     (\<exists>x\<in>set rs. ev = LoadEv c (Inr (fst (snd x)))) \<or> (\<exists>d r. ev = CallEv d r)"
  by (induction rs) (auto simp: load_round_def)

lemma load_walk:
  assumes run: "LoadEach w (traced env) dir (\<lambda>d pkgs. traced_call d (f d pkgs)) nd (s, []) = (r, (s', log))"
  shows "\<exists>rs tail. log = concat (map (load_round (load_config w dir)) rs) @ tail \<and>
           list_all (passes_policy w) rs \<and>
           (tail = [] \<or>
            (\<exists>m. tail = [LoadEv (load_config w dir) (Inl m)]) \<or>
            (\<exists>pkgs agg d. tail = [LoadEv (load_config w dir) (Inr pkgs)] \<and> FailOnPackageErrors w \<and>
               join_package_errors pkgs = Some agg \<and> r = Some (Wrapped agg (''in '' @ d))) \<or>
            (\<exists>x. tail = load_round (load_config w dir) x \<and> passes_policy w x))"
proof -
  let ?c = "load_config w dir"
  from rounds_of_walk[OF load_emits run[unfolded LoadEach_def]]
  consider
    (finished) rs where "log = concat (map (\<lambda>x. snd (snd x)) rs)"
      "\<forall>x\<in>set rs. load_visit_rel w ?c (fst x) (fst (snd x)) (snd (snd x)) \<and> \<not> aborting (fst (snd x))"
    | (aborted) rs d e evs where "log = concat (map (\<lambda>x. snd (snd x)) rs) @ evs"
      "\<forall>x\<in>set rs. load_visit_rel w ?c (fst x) (fst (snd x)) (snd (snd x)) \<and> \<not> aborting (fst (snd x))"
      "load_visit_rel w ?c d (Some e) evs" "\<not> errors_Is e SkipDir"
      "r = (if errors_Is e SkipAll then None else Some (Wrapped e (''in '' @ d)))"
    by blast
  then show ?thesis
  proof cases
    case finished
    from load_rounds_complete[OF finished(2)] finished(1) obtain rs' where
      "log = concat (map (load_round ?c) rs') @ []" "list_all (passes_policy w) rs'" by auto
    then show ?thesis by blast
  next
    case aborted
    from load_rounds_complete[OF aborted(2)] aborted(1) obtain rs' where
      pre: "log = concat (map (load_round ?c) rs') @ evs" "list_all (passes_policy w) rs'" by auto
    from aborted(3) consider
      (lf) m where "evs = [LoadEv ?c (Inl m)]"
      | (agg) pkgs agg where "evs = [LoadEv ?c (Inr pkgs)]" "FailOnPackageErrors w"
          "join_package_errors pkgs = Some agg" "e = agg"
      | (call) pkgs where "evs = load_round ?c (d, pkgs, Some e)" "passes_policy w (d, pkgs, Some e)"
      unfolding load_visit_rel_def passes_policy_def by auto
    then show ?thesis
    proof cases
      case lf
      with pre show ?thesis by blast
    next
      case agg
      with aggregate_no_signal(2)[OF agg(3)] aborted(5)
      have "r = Some (Wrapped agg (''in '' @ d))" by simp
      with agg pre show ?thesis by blast
    next
      case call
      with pre show ?thesis by blast
    qed
  qed
qed

text \<open>
  C6: with \<open>FailOnPackageErrors\<close>, when the packages loaded at a module root have at least
  one error, the load is the last event of the walk (the callback is not called at that
  root), and \<open>LoadEach\<close> returns, in the context of the directory, the join of all these
  errors: its constituents are the errors of the packages in the order of the loop, each a
  \<open>PackageLoadError\<close> with the path of its package, and each is found by \<open>errors.Is\<close> in
  the error returned.
\<close>

theorem package_errors_abort:
  assumes fo: "FailOnPackageErrors w"
    and run: "LoadEach w (traced env) dir (\<lambda>d pkgs. traced_call d (f d pkgs)) nd (s, []) = (r, (s', log))"
    and ev: "LoadEv c (Inr pkgs) \<in> set log"
    and errs: "concat (map Errors pkgs) \<noteq> []"
  shows "\<exists>rs d agg. log = concat (map (load_round c) rs) @ [LoadEv c (Inr pkgs)] \<and>
           join_package_errors pkgs = Some agg \<and>
           constituents agg = tagged_errors pkgs \<and>
           list_all (errors_Is (Wrapped agg (''in '' @ d))) (tagged_errors pkgs) \<and>
           map Unwrap (constituents agg) = map (\<lambda>e. Some (PackagesError e)) (concat (map Errors pkgs)) \<and>
           r = Some (Wrapped agg (''in '' @ d))"
proof -
  let ?c = "load_config w dir"
  from join_package_errors_Some[OF errs] obtain agg where
    agg: "join_package_errors pkgs = Some agg" "constituents agg = tagged_errors pkgs" by blast
  have bad: "\<not> passes_policy w (d, pkgs, x)" for d x
    using fo agg by (simp add: passes_policy_def)
  from load_walk[OF run] obtain rs tail where
    log: "log = concat (map (load_round ?c) rs) @ tail" and pol: "list_all (passes_policy w) rs"
    and tl: "tail = [] \<or>
            (\<exists>m. tail = [LoadEv ?c (Inl m)]) \<or>
            (\<exists>pkgs agg d. tail = [LoadEv ?c (Inr pkgs)] \<and> FailOnPackageErrors w \<and>
               join_package_errors pkgs = Some agg \<and> r = Some (Wrapped agg (''in '' @ d))) \<or>
            (\<exists>x. tail = load_round ?c x \<and> passes_policy w x)"
    by blast
  have notpre: "LoadEv c (Inr pkgs) \<notin> set (concat (map (load_round ?c) rs))"
  proof
    assume "LoadEv c (Inr pkgs) \<in> set (concat (map (load_round ?c) rs))"
    from load_rounds_events[OF this] obtain x where "x \<in> set rs" "pkgs = fst (snd x)" by auto
    with pol have "passes_policy w (fst x, pkgs, snd (snd x))" by (simp add: list_all_iff)
    with bad show False by blast
  qed
  with ev log have intail: "LoadEv c (Inr pkgs) \<in> set tail" by simp
  from tl intail bad obtain d where
    t: "tail = [LoadEv ?c (Inr pkgs)]" "r = Some (Wrapped agg (''in '' @ d))" and c: "c = ?c"
    using agg(1) by (auto simp: load_round_def)
  have "list_all (errors_Is (Wrapped agg (''in '' @ d))) (tagged_errors pkgs)"
    using constituent_reachable(1)[of _ agg] agg(2) by (auto simp: list_all_iff)
  moreover have "map Unwrap (constituents agg) =
      map (\<lambda>e. Some (PackagesError e)) (concat (map Errors pkgs))"
    unfolding agg(2) tagged_errors_def by (induction pkgs) simp_all
  ultimately show ?thesis using log t c agg by blast
qed

lemma load_events_config:
  assumes run: "LoadEach w (traced env) dir (\<lambda>d pkgs. traced_call d (f d pkgs)) nd (s, []) = (r, (s', log))"
    and ev: "LoadEv c res \<in> set log"
  shows "c = load_config w dir"
proof -
  from load_walk[OF run] obtain rs tail where
    log: "log = concat (map (load_round (load_config w dir)) rs) @ tail"
    and tl: "tail = [] \<or>
            (\<exists>m. tail = [LoadEv (load_config w dir) (Inl m)]) \<or>
            (\<exists>pkgs agg d. tail = [LoadEv (load_config w dir) (Inr pkgs)] \<and> FailOnPackageErrors w \<and>
               join_package_errors pkgs = Some agg \<and> r = Some (Wrapped agg (''in '' @ d))) \<or>
            (\<exists>x. tail = load_round (load_config w dir) x \<and> passes_policy w x)"
    by blast
  from ev log consider "LoadEv c res \<in> set (concat (map (load_round (load_config w dir)) rs))"
    | "LoadEv c res \<in> set tail" by auto
  then show ?thesis
  proof cases
    case 1
    from load_rounds_events[OF 1] show ?thesis by auto
  next
    case 2
    with tl show ?thesis by (auto simp: load_round_def)
  qed
qed

lemma load_config_cases:
  "load_config w dir =
     (if isZeroConfig (LoadConfig w) then DefaultLoadConfig
      else if Mode (LoadConfig w) = 0 then (LoadConfig w)\<lparr>Mode := DefaultLoadMode\<rparr>
      else LoadConfig w)\<lparr>Dir := dir\<rparr>"
proof -
  have nz: "DefaultLoadMode \<noteq> 0"
    by (simp add: DefaultLoadMode_def NeedName_def NeedFiles_def NeedImports_def NeedDeps_def
        NeedTypes_def NeedSyntax_def NeedTypesInfo_def NeedTypesSizes_def NeedModule_def
        NeedEmbedFiles_def NeedEmbedPatterns_def)
  have z: "isZeroConfig (LoadConfig w) \<Longrightarrow> Mode (LoadConfig w) = 0"
    by (simp add: isZeroConfig_def zeroLoadConfig_def)
  show ?thesis
    using nz z by (auto simp: load_config_def Let_def DefaultLoadConfig_def)
qed

text \<open>
  C8: every call of the loader in a walk of \<open>LoadEach\<close> has the configuration of lines
  185-192: \<open>DefaultLoadConfig\<close> when the configuration of the walker is the zero
  configuration, the configuration of the walker with \<open>DefaultLoadMode\<close> when only its mode
  is zero, the configuration of the walker otherwise, each with \<open>Dir\<close> set to the root of
  the walk. \<open>DefaultLoadMode\<close> has the eleven flags of line 61, each a bit of its own.
\<close>

theorem load_config_passed:
  assumes "LoadEach w (traced env) dir (\<lambda>d pkgs. traced_call d (f d pkgs)) nd (s, []) = (r, (s', log))"
    and "LoadEv c res \<in> set log"
  shows "c = (if isZeroConfig (LoadConfig w) then DefaultLoadConfig
              else if Mode (LoadConfig w) = 0 then (LoadConfig w)\<lparr>Mode := DefaultLoadMode\<rparr>
              else LoadConfig w)\<lparr>Dir := dir\<rparr> \<and>
         Mode c = (if Mode (LoadConfig w) = 0 then DefaultLoadMode else Mode (LoadConfig w)) \<and>
         Mode DefaultLoadConfig = DefaultLoadMode \<and>
         DefaultLoadMode = 58331 \<and>
         list_all (\<lambda>flag. DefaultLoadMode AND flag = flag \<and> flag \<noteq> 0)
           [NeedName, NeedFiles, NeedImports, NeedDeps, NeedTypes, NeedSyntax, NeedTypesInfo,
            NeedTypesSizes, NeedModule, NeedEmbedFiles, NeedEmbedPatterns]"
proof -
  have c: "c = load_config w dir" using load_events_config[OF assms] .
  have v: "DefaultLoadMode = 58331"
    by (simp add: DefaultLoadMode_def NeedName_def NeedFiles_def NeedImports_def NeedDeps_def
        NeedTypes_def NeedSyntax_def NeedTypesInfo_def NeedTypesSizes_def NeedModule_def
        NeedEmbedFiles_def NeedEmbedPatterns_def)
  have fl: "list_all (\<lambda>flag. (58331 :: LoadMode) AND flag = flag \<and> flag \<noteq> 0)
           [NeedName, NeedFiles, NeedImports, NeedDeps, NeedTypes, NeedSyntax, NeedTypesInfo,
            NeedTypesSizes, NeedModule, NeedEmbedFiles, NeedEmbedPatterns]"
    by (simp add: NeedName_def NeedFiles_def NeedImports_def NeedDeps_def
        NeedTypes_def NeedSyntax_def NeedTypesInfo_def NeedTypesSizes_def NeedModule_def
        NeedEmbedFiles_def NeedEmbedPatterns_def)
  have z: "isZeroConfig (LoadConfig w) \<Longrightarrow> Mode (LoadConfig w) = 0"
    by (simp add: isZeroConfig_def zeroLoadConfig_def)
  have m: "Mode (load_config w dir) = (if Mode (LoadConfig w) = 0 then DefaultLoadMode else Mode (LoadConfig w))"
    using z by (auto simp: load_config_cases DefaultLoadConfig_def)
  have d: "Mode DefaultLoadConfig = DefaultLoadMode" by (simp add: DefaultLoadConfig_def)
  from c m d v fl load_config_cases[of w dir] show ?thesis by simp
qed

lemma combined_visit_traced:
  "\<exists>r s' evs. load_visit w (traced env) c
       (\<lambda>subdir pkgs. withGomod w (traced env) dir subdir
           (\<lambda>subdir mf. traced_call subdir (f subdir mf pkgs))) subdir (s, log)
       = (r, (s', log @ evs)) \<and> combined_visit_rel w c subdir r evs"
proof -
  obtain res s1 where lf: "packages_Load env c ''./...'' s = (res, s1)"
    by (cases "packages_Load env c ''./...'' s")
  show ?thesis
  proof (cases res)
    case (Inl m)
    with lf show ?thesis
      by (simp add: load_visit_def traced_def combined_visit_rel_def)
  next
    case (Inr pkgs)
    show ?thesis
    proof (cases "if FailOnPackageErrors w then join_package_errors pkgs else None")
      case None
      then have pol: "passes_policy w (subdir, pkgs, x)" for x
        by (auto simp: passes_policy_def split: if_splits)
      from withGomod_traced[of w env dir subdir "\<lambda>d mf. f d mf pkgs" s1 "log @ [LoadEv c (Inr pkgs)]"]
      obtain r s2 evs' where
        wg: "withGomod w (traced env) dir subdir (\<lambda>d mf. traced_call d (f d mf pkgs))
              (s1, log @ [LoadEv c (Inr pkgs)]) = (r, (s2, (log @ [LoadEv c (Inr pkgs)]) @ evs'))"
        and rel: "gomod_visit_rel w subdir r evs'" by blast
      have "load_visit w (traced env) c
         (\<lambda>subdir pkgs. withGomod w (traced env) dir subdir
           (\<lambda>subdir mf. traced_call subdir (f subdir mf pkgs))) subdir (s, log)
          = (r, (s2, log @ (LoadEv c (Inr pkgs) # evs')))"
        using lf Inr None wg by (simp add: load_visit_def traced_def)
      moreover have "combined_visit_rel w c subdir r (LoadEv c (Inr pkgs) # evs')"
        unfolding combined_visit_rel_def using pol rel by blast
      ultimately show ?thesis by blast
    next
      case (Some agg)
      then have fo: "FailOnPackageErrors w" "join_package_errors pkgs = Some agg"
        by (auto split: if_splits)
      have "load_visit w (traced env) c
         (\<lambda>subdir pkgs. withGomod w (traced env) dir subdir
           (\<lambda>subdir mf. traced_call subdir (f subdir mf pkgs))) subdir (s, log)
          = (Some agg, (s1, log @ [LoadEv c (Inr pkgs)]))"
        using lf Inr Some by (simp add: load_visit_def traced_def)
      moreover have "combined_visit_rel w c subdir (Some agg) [LoadEv c (Inr pkgs)]"
        unfolding combined_visit_rel_def using fo by auto
      ultimately show ?thesis by blast
    qed
  qed
qed

lemma combined_emits:
  "emits (load_visit w (traced env) c
       (\<lambda>subdir pkgs. withGomod w (traced env) dir subdir
           (\<lambda>subdir mf. traced_call subdir (f subdir mf pkgs))))
     (combined_visit_rel w c)"
  unfolding emits_def using combined_visit_traced by fast

lemma combined_complete:
  assumes "combined_visit_rel w c d r evs" "\<not> aborting r"
  shows "\<exists>pkgs. evs = combined_round w c (d, pkgs, r) \<and> passes_policy w (d, pkgs, r)"
proof -
  from assms(2) have na: "r = None \<or> (\<exists>e. r = Some e \<and> errors_Is e SkipDir)"
    by (auto simp: aborting_def split: option.splits)
  from assms(1) consider
    (lf) m where "r = Some (Wrapped (Opaque m) (''loading packages in '' @ d))"
    | (agg) pkgs agg where "join_package_errors pkgs = Some agg" "r = Some agg"
    | (go) pkgs evs' where "evs = LoadEv c (Inr pkgs) # evs'" "passes_policy w (d, pkgs, r)"
        "gomod_visit_rel w d r evs'"
    unfolding combined_visit_rel_def by blast
  then show ?thesis
  proof cases
    case lf
    with na show ?thesis by auto
  next
    case agg
    with na aggregate_no_signal(1)[OF agg(1)] show ?thesis by auto
  next
    case go
    from gomod_complete[OF go(3) assms(2)] go(1,2) show ?thesis
      by (auto simp: combined_round_def)
  qed
qed

lemma combined_rounds_complete:
  assumes "\<forall>x\<in>set rs. combined_visit_rel w c (fst x) (fst (snd x)) (snd (snd x)) \<and> \<not> aborting (fst (snd x))"
  shows "\<exists>rs'. concat (map (\<lambda>x. snd (snd x)) rs) = concat (map (combined_round w c) rs') \<and>
           list_all (passes_policy w) rs' \<and> list_all (\<lambda>x. \<not> aborting (snd (snd x))) rs'"
  using assms
proof (induction rs)
  case Nil
  have "concat (map (\<lambda>x. snd (snd x)) []) = concat (map (combined_round w c) []) \<and>
      list_all (passes_policy w) [] \<and> list_all (\<lambda>x. \<not> aborting (snd (snd x))) []" by simp
  then show ?case by blast
next
  case (Cons x rs)
  then obtain rs' where rs': "concat (map (\<lambda>x. snd (snd x)) rs) = concat (map (combined_round w c) rs')"
    "list_all (passes_policy w) rs'" "list_all (\<lambda>x. \<not> aborting (snd (snd x))) rs'" by auto
  from Cons.prems have na: "\<not> aborting (fst (snd x))" by simp
  from Cons.prems combined_complete[of w c "fst x" "fst (snd x)" "snd (snd x)"] obtain pkgs where
    x: "snd (snd x) = combined_round w c (fst x, pkgs, fst (snd x))"
    "passes_policy w (fst x, pkgs, fst (snd x))"
    by auto
  with rs' na have "concat (map (\<lambda>x. snd (snd x)) (x # rs))
      = concat (map (combined_round w c) ((fst x, pkgs, fst (snd x)) # rs')) \<and>
      list_all (passes_policy w) ((fst x, pkgs, fst (snd x)) # rs') \<and>
      list_all (\<lambda>x. \<not> aborting (snd (snd x))) ((fst x, pkgs, fst (snd x)) # rs')" by simp
  then show ?case by blast
qed

lemma combined_visit_eq:
  "load_visit w env (load_config w dir)
     (\<lambda>subdir pkgs. withGomod w env dir subdir (\<lambda>subdir mf. f subdir mf pkgs))
   = combined_visit w env dir f"
proof (intro ext)
  fix subdir s
  obtain res s1 where lf: "packages_Load env (load_config w dir) ''./...'' s = (res, s1)"
    by (cases "packages_Load env (load_config w dir) ''./...'' s")
  show "load_visit w env (load_config w dir)
     (\<lambda>subdir pkgs. withGomod w env dir subdir (\<lambda>subdir mf. f subdir mf pkgs)) subdir s
   = combined_visit w env dir f subdir s"
  proof (cases res)
    case (Inl m)
    with lf show ?thesis by (simp add: load_visit_def combined_visit_def)
  next
    case (Inr pkgs)
    with lf show ?thesis
      by (cases "join_package_errors pkgs")
        (auto simp: load_visit_def combined_visit_def withGomod_def Let_def
          split: prod.splits sum.splits)
  qed
qed

text \<open>
  C9: \<open>LoadEachGomod\<close> is the walk with, at each module root, the steps of
  \<open>combined_visit\<close>: load, then read and parse, then the callback, whose result goes to the
  walker as it is. The log of a walk consists of complete rounds (load, read, parse, call,
  with results that do not end the walk) and of one of the ends of \<open>combined_end\<close>: a
  failure of a step ends the walk before the callback of that root, and a stop-all signal
  of the callback makes the walk return \<open>nil\<close>.
\<close>

theorem combined_order:
  assumes run: "LoadEachGomod w (traced env) dir (\<lambda>d mf pkgs. traced_call d (f d mf pkgs)) nd (s, [])
      = (r, (s', log))"
  shows "LoadEachGomod w env dir f nd s = Each w (combined_visit w env dir f) dir nd s \<and>
         (\<exists>rs tail. log = concat (map (combined_round w (load_config w dir)) rs) @ tail \<and>
            list_all (passes_policy w) rs \<and> list_all (\<lambda>x. \<not> aborting (snd (snd x))) rs \<and>
            combined_end w (load_config w dir) r tail)"
proof -
  let ?c = "load_config w dir"
  have eq: "LoadEachGomod w env dir f nd s = Each w (combined_visit w env dir f) dir nd s"
    by (simp add: LoadEachGomod_def LoadEach_def combined_visit_eq)
  from rounds_of_walk[OF combined_emits run[unfolded LoadEachGomod_def LoadEach_def]]
  consider
    (finished) rs where "log = concat (map (\<lambda>x. snd (snd x)) rs)"
      "\<forall>x\<in>set rs. combined_visit_rel w ?c (fst x) (fst (snd x)) (snd (snd x)) \<and> \<not> aborting (fst (snd x))"
      "r = None \<or> (\<exists>e. r = Some e \<and> fs_failure e)"
    | (aborted) rs d e evs where "log = concat (map (\<lambda>x. snd (snd x)) rs) @ evs"
      "\<forall>x\<in>set rs. combined_visit_rel w ?c (fst x) (fst (snd x)) (snd (snd x)) \<and> \<not> aborting (fst (snd x))"
      "combined_visit_rel w ?c d (Some e) evs" "\<not> errors_Is e SkipDir"
      "r = (if errors_Is e SkipAll then None else Some (Wrapped e (''in '' @ d)))"
    by blast
  then have "\<exists>rs tail. log = concat (map (combined_round w ?c) rs) @ tail \<and>
            list_all (passes_policy w) rs \<and> list_all (\<lambda>x. \<not> aborting (snd (snd x))) rs \<and>
            combined_end w ?c r tail"
  proof cases
    case finished
    from combined_rounds_complete[OF finished(2)] finished(1) obtain rs' where
      "log = concat (map (combined_round w ?c) rs') @ []" "list_all (passes_policy w) rs'"
      "list_all (\<lambda>x. \<not> aborting (snd (snd x))) rs'" by auto
    moreover have "combined_end w ?c r []" using finished(3) by (simp add: combined_end_def)
    ultimately show ?thesis by blast
  next
    case aborted
    from combined_rounds_complete[OF aborted(2)] aborted(1) obtain rs' where
      pre: "log = concat (map (combined_round w ?c) rs') @ evs" "list_all (passes_policy w) rs'"
      "list_all (\<lambda>x. \<not> aborting (snd (snd x))) rs'" by auto
    have "combined_end w ?c r evs"
    proof -
      from aborted(3) consider
        (lf) m where "evs = [LoadEv ?c (Inl m)]"
          "e = Wrapped (Opaque m) (''loading packages in '' @ d)"
        | (agg) pkgs agg where "evs = [LoadEv ?c (Inr pkgs)]" "FailOnPackageErrors w"
          "join_package_errors pkgs = Some agg" "e = agg"
        | (go) pkgs evs' where "evs = LoadEv ?c (Inr pkgs) # evs'"
          "gomod_visit_rel w d (Some e) evs'"
        unfolding combined_visit_rel_def by auto
      then show ?thesis
      proof cases
        case lf
        with aborted(5) show ?thesis unfolding combined_end_def by auto
      next
        case agg
        with aggregate_no_signal(2)[OF agg(3)] aborted(5) show ?thesis
          unfolding combined_end_def by auto
      next
        case go
        from go(2) consider
          (rd) m where "evs' = [ReadFileEv (Join [d, ''go.mod'']) (Some m)]"
            "e = Wrapped (Opaque m) (''reading '' @ Join [d, ''go.mod''])"
          | (prs) m where "evs' = [ReadFileEv (Join [d, ''go.mod'']) None,
              ParseEv (ParseLax w) (Join [d, ''go.mod'']) (Some m)]"
            "e = Wrapped (Opaque m) (''parsing '' @ Join [d, ''go.mod''])"
          | (call) "evs' = gomod_round w (d, Some e)"
          unfolding gomod_visit_rel_def by auto
        then show ?thesis
        proof cases
          case rd
          with go(1) aborted(5) show ?thesis unfolding combined_end_def by auto
        next
          case prs
          with go(1) aborted(5) show ?thesis unfolding combined_end_def by auto
        next
          case call
          with go(1) have "evs = combined_round w ?c (d, pkgs, Some e)"
            by (simp add: combined_round_def)
          with aborted(4,5) show ?thesis unfolding combined_end_def by blast
        qed
      qed
    qed
    with pre show ?thesis by blast
  qed
  with eq show ?thesis by blast
qed

lemmas adapter_simps =
  EachGomod_def LoadEach_def LoadEachGomod_def withGomod_def load_visit_def load_config_def
  isZeroConfig_def DefaultLoadConfig_def traced_def traced_call_def example_env_def
  broken_env_def broken_packages_def no_signal_def join_package_errors_def errors_Join_def
  List.map_filter_simps Let_def

theorem bad_manifest_aborts_witness:
  "EachGomod zeroWalker (traced example_env) ''root'' (\<lambda>d mf. traced_call d (no_signal d))
     scenario_tree ((), []) =
   (Some (Wrapped (Wrapped (Opaque ''syntax error'') ''parsing root/a/go.mod'') ''in root/a''),
    ((), [ReadFileEv ''root/go.mod'' None, ParseEv False ''root/go.mod'' None, CallEv ''root'' None,
          ReadFileEv ''root/a/go.mod'' None, ParseEv False ''root/a/go.mod'' (Some ''syntax error'')])) \<and>
   (\<exists>rs d. ''root/a/go.mod'' = Join [d, ''go.mod''] \<and>
     (([ReadFileEv ''root/go.mod'' None, ParseEv False ''root/go.mod'' None, CallEv ''root'' None,
          ReadFileEv ''root/a/go.mod'' None, ParseEv False ''root/a/go.mod'' (Some ''syntax error'')]
        = concat (map (gomod_round zeroWalker) rs) @ [ReadFileEv ''root/a/go.mod'' (Some ''syntax error'')] \<and>
       Some (Wrapped (Wrapped (Opaque ''syntax error'') ''parsing root/a/go.mod'') ''in root/a'')
         = Some (Wrapped (Wrapped (Opaque ''syntax error'') (''reading '' @ ''root/a/go.mod'')) (''in '' @ d))) \<or>
      ([ReadFileEv ''root/go.mod'' None, ParseEv False ''root/go.mod'' None, CallEv ''root'' None,
          ReadFileEv ''root/a/go.mod'' None, ParseEv False ''root/a/go.mod'' (Some ''syntax error'')]
        = concat (map (gomod_round zeroWalker) rs) @
          [ReadFileEv ''root/a/go.mod'' None, ParseEv (ParseLax zeroWalker) ''root/a/go.mod'' (Some ''syntax error'')] \<and>
       Some (Wrapped (Wrapped (Opaque ''syntax error'') ''parsing root/a/go.mod'') ''in root/a'')
         = Some (Wrapped (Wrapped (Opaque ''syntax error'') (''parsing '' @ ''root/a/go.mod'')) (''in '' @ d)))))"
proof (rule conjI)
  show run: "EachGomod zeroWalker (traced example_env) ''root'' (\<lambda>d mf. traced_call d (no_signal d))
     scenario_tree ((), []) =
   (Some (Wrapped (Wrapped (Opaque ''syntax error'') ''parsing root/a/go.mod'') ''in root/a''),
    ((), [ReadFileEv ''root/go.mod'' None, ParseEv False ''root/go.mod'' None, CallEv ''root'' None,
          ReadFileEv ''root/a/go.mod'' None, ParseEv False ''root/a/go.mod'' (Some ''syntax error'')]))"
    by (simp add: adapter_simps eval_simps)
  have bad: "ReadFileEv ''root/a/go.mod'' (Some ''syntax error'') \<in> set
      [ReadFileEv ''root/go.mod'' None, ParseEv False ''root/go.mod'' None, CallEv ''root'' None,
          ReadFileEv ''root/a/go.mod'' None, ParseEv False ''root/a/go.mod'' (Some ''syntax error'')] \<or>
      ParseEv False ''root/a/go.mod'' (Some ''syntax error'') \<in> set
      [ReadFileEv ''root/go.mod'' None, ParseEv False ''root/go.mod'' None, CallEv ''root'' None,
          ReadFileEv ''root/a/go.mod'' None, ParseEv False ''root/a/go.mod'' (Some ''syntax error'')]"
    by simp
  show "\<exists>rs d. ''root/a/go.mod'' = Join [d, ''go.mod''] \<and>
     (([ReadFileEv ''root/go.mod'' None, ParseEv False ''root/go.mod'' None, CallEv ''root'' None,
          ReadFileEv ''root/a/go.mod'' None, ParseEv False ''root/a/go.mod'' (Some ''syntax error'')]
        = concat (map (gomod_round zeroWalker) rs) @ [ReadFileEv ''root/a/go.mod'' (Some ''syntax error'')] \<and>
       Some (Wrapped (Wrapped (Opaque ''syntax error'') ''parsing root/a/go.mod'') ''in root/a'')
         = Some (Wrapped (Wrapped (Opaque ''syntax error'') (''reading '' @ ''root/a/go.mod'')) (''in '' @ d))) \<or>
      ([ReadFileEv ''root/go.mod'' None, ParseEv False ''root/go.mod'' None, CallEv ''root'' None,
          ReadFileEv ''root/a/go.mod'' None, ParseEv False ''root/a/go.mod'' (Some ''syntax error'')]
        = concat (map (gomod_round zeroWalker) rs) @
          [ReadFileEv ''root/a/go.mod'' None, ParseEv (ParseLax zeroWalker) ''root/a/go.mod'' (Some ''syntax error'')] \<and>
       Some (Wrapped (Wrapped (Opaque ''syntax error'') ''parsing root/a/go.mod'') ''in root/a'')
         = Some (Wrapped (Wrapped (Opaque ''syntax error'') (''parsing '' @ ''root/a/go.mod'')) (''in '' @ d))))"
    by (rule bad_manifest_aborts[OF run bad])
qed

theorem package_errors_abort_witness:
  "LoadEach (zeroWalker\<lparr>FailOnPackageErrors := True\<rparr>) (traced broken_env) ''root''
      (\<lambda>d pkgs. traced_call d (no_signal d)) scenario_tree ((), []) =
   (Some (Wrapped
      (Joined [Joined [PackageLoadError ''m/p'' (PackagesError \<lparr>Pos = ''p.go:1:1'', Msg = ''undefined: x'', Kind = 3\<rparr>)],
        PackageLoadError ''m/q'' (PackagesError \<lparr>Pos = ''q.go:2:1'', Msg = ''undefined: y'', Kind = 3\<rparr>)])
      ''in root''),
    ((), [LoadEv (load_config (zeroWalker\<lparr>FailOnPackageErrors := True\<rparr>) ''root'') (Inr broken_packages)])) \<and>
   (\<exists>rs d agg. [LoadEv (load_config (zeroWalker\<lparr>FailOnPackageErrors := True\<rparr>) ''root'') (Inr broken_packages)] = concat (map (load_round (load_config (zeroWalker\<lparr>FailOnPackageErrors := True\<rparr>) ''root'')) rs) @ [LoadEv (load_config (zeroWalker\<lparr>FailOnPackageErrors := True\<rparr>) ''root'') (Inr broken_packages)] \<and>
           join_package_errors broken_packages = Some agg \<and>
           constituents agg = tagged_errors broken_packages \<and>
           list_all (errors_Is (Wrapped agg (''in '' @ d))) (tagged_errors broken_packages) \<and>
           map Unwrap (constituents agg) = map (\<lambda>e. Some (PackagesError e)) (concat (map Errors broken_packages)) \<and>
           Some (Wrapped
      (Joined [Joined [PackageLoadError ''m/p'' (PackagesError \<lparr>Pos = ''p.go:1:1'', Msg = ''undefined: x'', Kind = 3\<rparr>)],
        PackageLoadError ''m/q'' (PackagesError \<lparr>Pos = ''q.go:2:1'', Msg = ''undefined: y'', Kind = 3\<rparr>)])
      ''in root'') = Some (Wrapped agg (''in '' @ d)))"
proof (rule conjI)
  show run: "LoadEach (zeroWalker\<lparr>FailOnPackageErrors := True\<rparr>) (traced broken_env) ''root''
      (\<lambda>d pkgs. traced_call d (no_signal d)) scenario_tree ((), []) =
   (Some (Wrapped
      (Joined [Joined [PackageLoadError ''m/p'' (PackagesError \<lparr>Pos = ''p.go:1:1'', Msg = ''undefined: x'', Kind = 3\<rparr>)],
        PackageLoadError ''m/q'' (PackagesError \<lparr>Pos = ''q.go:2:1'', Msg = ''undefined: y'', Kind = 3\<rparr>)])
      ''in root''),
    ((), [LoadEv (load_config (zeroWalker\<lparr>FailOnPackageErrors := True\<rparr>) ''root'') (Inr broken_packages)]))"
    by (simp add: adapter_simps eval_simps)
  have h0: "FailOnPackageErrors (zeroWalker\<lparr>FailOnPackageErrors := True\<rparr>)"
    by simp
  have h1: "LoadEv (load_config (zeroWalker\<lparr>FailOnPackageErrors := True\<rparr>) ''root'') (Inr broken_packages) \<in> set [LoadEv (load_config (zeroWalker\<lparr>FailOnPackageErrors := True\<rparr>) ''root'') (Inr broken_packages)]"
    by simp
  have h2: "concat (map Errors broken_packages) \<noteq> []"
    by (simp add: broken_packages_def)
  show "\<exists>rs d agg. [LoadEv (load_config (zeroWalker\<lparr>FailOnPackageErrors := True\<rparr>) ''root'') (Inr broken_packages)] = concat (map (load_round (load_config (zeroWalker\<lparr>FailOnPackageErrors := True\<rparr>) ''root'')) rs) @ [LoadEv (load_config (zeroWalker\<lparr>FailOnPackageErrors := True\<rparr>) ''root'') (Inr broken_packages)] \<and>
           join_package_errors broken_packages = Some agg \<and>
           constituents agg = tagged_errors broken_packages \<and>
           list_all (errors_Is (Wrapped agg (''in '' @ d))) (tagged_errors broken_packages) \<and>
           map Unwrap (constituents agg) = map (\<lambda>e. Some (PackagesError e)) (concat (map Errors broken_packages)) \<and>
           Some (Wrapped
      (Joined [Joined [PackageLoadError ''m/p'' (PackagesError \<lparr>Pos = ''p.go:1:1'', Msg = ''undefined: x'', Kind = 3\<rparr>)],
        PackageLoadError ''m/q'' (PackagesError \<lparr>Pos = ''q.go:2:1'', Msg = ''undefined: y'', Kind = 3\<rparr>)])
      ''in root'') = Some (Wrapped agg (''in '' @ d))"
    by (rule package_errors_abort[OF h0 run h1 h2])
qed

theorem load_config_passed_witness:
  "LoadEach (zeroWalker\<lparr>LoadConfig := zeroLoadConfig\<lparr>Tests := True\<rparr>\<rparr>) (traced example_env) ''root''
      (\<lambda>d pkgs. traced_call d (no_signal d))
      (Directory None None [(''go.mod'', RegularFile)]) ((), []) =
   (None,
    ((), [LoadEv (load_config (zeroWalker\<lparr>LoadConfig := zeroLoadConfig\<lparr>Tests := True\<rparr>\<rparr>) ''root'') (Inr [\<lparr>PkgPath = ''root'', Errors = []\<rparr>]), CallEv ''root'' None])) \<and>
   ((load_config (zeroWalker\<lparr>LoadConfig := zeroLoadConfig\<lparr>Tests := True\<rparr>\<rparr>) ''root'') = (if isZeroConfig (LoadConfig (zeroWalker\<lparr>LoadConfig := zeroLoadConfig\<lparr>Tests := True\<rparr>\<rparr>)) then DefaultLoadConfig
              else if Mode (LoadConfig (zeroWalker\<lparr>LoadConfig := zeroLoadConfig\<lparr>Tests := True\<rparr>\<rparr>)) = 0 then (LoadConfig (zeroWalker\<lparr>LoadConfig := zeroLoadConfig\<lparr>Tests := True\<rparr>\<rparr>))\<lparr>Mode := DefaultLoadMode\<rparr>
              else LoadConfig (zeroWalker\<lparr>LoadConfig := zeroLoadConfig\<lparr>Tests := True\<rparr>\<rparr>))\<lparr>Dir := ''root''\<rparr> \<and>
         Mode (load_config (zeroWalker\<lparr>LoadConfig := zeroLoadConfig\<lparr>Tests := True\<rparr>\<rparr>) ''root'') = (if Mode (LoadConfig (zeroWalker\<lparr>LoadConfig := zeroLoadConfig\<lparr>Tests := True\<rparr>\<rparr>)) = 0 then DefaultLoadMode else Mode (LoadConfig (zeroWalker\<lparr>LoadConfig := zeroLoadConfig\<lparr>Tests := True\<rparr>\<rparr>))) \<and>
         Mode DefaultLoadConfig = DefaultLoadMode \<and>
         DefaultLoadMode = 58331 \<and>
         list_all (\<lambda>flag. DefaultLoadMode AND flag = flag \<and> flag \<noteq> 0)
           [NeedName, NeedFiles, NeedImports, NeedDeps, NeedTypes, NeedSyntax, NeedTypesInfo,
            NeedTypesSizes, NeedModule, NeedEmbedFiles, NeedEmbedPatterns])"
proof (rule conjI)
  show run: "LoadEach (zeroWalker\<lparr>LoadConfig := zeroLoadConfig\<lparr>Tests := True\<rparr>\<rparr>) (traced example_env) ''root''
      (\<lambda>d pkgs. traced_call d (no_signal d))
      (Directory None None [(''go.mod'', RegularFile)]) ((), []) =
   (None,
    ((), [LoadEv (load_config (zeroWalker\<lparr>LoadConfig := zeroLoadConfig\<lparr>Tests := True\<rparr>\<rparr>) ''root'') (Inr [\<lparr>PkgPath = ''root'', Errors = []\<rparr>]), CallEv ''root'' None]))"
    by (simp add: adapter_simps eval_simps)
  have h0: "LoadEv (load_config (zeroWalker\<lparr>LoadConfig := zeroLoadConfig\<lparr>Tests := True\<rparr>\<rparr>) ''root'') (Inr [\<lparr>PkgPath = ''root'', Errors = []\<rparr>]) \<in> set [LoadEv (load_config (zeroWalker\<lparr>LoadConfig := zeroLoadConfig\<lparr>Tests := True\<rparr>\<rparr>) ''root'') (Inr [\<lparr>PkgPath = ''root'', Errors = []\<rparr>]), CallEv ''root'' None]"
    by simp
  show "(load_config (zeroWalker\<lparr>LoadConfig := zeroLoadConfig\<lparr>Tests := True\<rparr>\<rparr>) ''root'') = (if isZeroConfig (LoadConfig (zeroWalker\<lparr>LoadConfig := zeroLoadConfig\<lparr>Tests := True\<rparr>\<rparr>)) then DefaultLoadConfig
              else if Mode (LoadConfig (zeroWalker\<lparr>LoadConfig := zeroLoadConfig\<lparr>Tests := True\<rparr>\<rparr>)) = 0 then (LoadConfig (zeroWalker\<lparr>LoadConfig := zeroLoadConfig\<lparr>Tests := True\<rparr>\<rparr>))\<lparr>Mode := DefaultLoadMode\<rparr>
              else LoadConfig (zeroWalker\<lparr>LoadConfig := zeroLoadConfig\<lparr>Tests := True\<rparr>\<rparr>))\<lparr>Dir := ''root''\<rparr> \<and>
         Mode (load_config (zeroWalker\<lparr>LoadConfig := zeroLoadConfig\<lparr>Tests := True\<rparr>\<rparr>) ''root'') = (if Mode (LoadConfig (zeroWalker\<lparr>LoadConfig := zeroLoadConfig\<lparr>Tests := True\<rparr>\<rparr>)) = 0 then DefaultLoadMode else Mode (LoadConfig (zeroWalker\<lparr>LoadConfig := zeroLoadConfig\<lparr>Tests := True\<rparr>\<rparr>))) \<and>
         Mode DefaultLoadConfig = DefaultLoadMode \<and>
         DefaultLoadMode = 58331 \<and>
         list_all (\<lambda>flag. DefaultLoadMode AND flag = flag \<and> flag \<noteq> 0)
           [NeedName, NeedFiles, NeedImports, NeedDeps, NeedTypes, NeedSyntax, NeedTypesInfo,
            NeedTypesSizes, NeedModule, NeedEmbedFiles, NeedEmbedPatterns]"
    by (rule load_config_passed[OF run h0])
qed

theorem combined_order_witness:
  "LoadEachGomod zeroWalker (traced example_env) ''root''
      (\<lambda>d mf pkgs. traced_call d ((\<lambda>d mf pkgs. signal_at ''root'' SkipAll d) d mf pkgs)) scenario_tree ((), []) =
   (None,
    ((), [LoadEv (load_config zeroWalker ''root'') (Inr [\<lparr>PkgPath = ''root'', Errors = []\<rparr>]),
          ReadFileEv ''root/go.mod'' None, ParseEv False ''root/go.mod'' None,
          CallEv ''root'' (Some SkipAll)])) \<and>
   (LoadEachGomod zeroWalker example_env ''root'' (\<lambda>d mf pkgs. signal_at ''root'' SkipAll d) scenario_tree () =
           Each zeroWalker (combined_visit zeroWalker example_env ''root'' (\<lambda>d mf pkgs. signal_at ''root'' SkipAll d)) ''root'' scenario_tree () \<and>
         (\<exists>rs tail. [LoadEv (load_config zeroWalker ''root'') (Inr [\<lparr>PkgPath = ''root'', Errors = []\<rparr>]),
          ReadFileEv ''root/go.mod'' None, ParseEv False ''root/go.mod'' None,
          CallEv ''root'' (Some SkipAll)] = concat (map (combined_round zeroWalker (load_config zeroWalker ''root'')) rs) @ tail \<and>
            list_all (passes_policy zeroWalker) rs \<and> list_all (\<lambda>x. \<not> aborting (snd (snd x))) rs \<and>
            combined_end zeroWalker (load_config zeroWalker ''root'') None tail))"
proof (rule conjI)
  show run: "LoadEachGomod zeroWalker (traced example_env) ''root''
      (\<lambda>d mf pkgs. traced_call d ((\<lambda>d mf pkgs. signal_at ''root'' SkipAll d) d mf pkgs)) scenario_tree ((), []) =
   (None,
    ((), [LoadEv (load_config zeroWalker ''root'') (Inr [\<lparr>PkgPath = ''root'', Errors = []\<rparr>]),
          ReadFileEv ''root/go.mod'' None, ParseEv False ''root/go.mod'' None,
          CallEv ''root'' (Some SkipAll)]))"
    by (simp add: adapter_simps eval_simps)
  show "LoadEachGomod zeroWalker example_env ''root'' (\<lambda>d mf pkgs. signal_at ''root'' SkipAll d) scenario_tree () =
           Each zeroWalker (combined_visit zeroWalker example_env ''root'' (\<lambda>d mf pkgs. signal_at ''root'' SkipAll d)) ''root'' scenario_tree () \<and>
         (\<exists>rs tail. [LoadEv (load_config zeroWalker ''root'') (Inr [\<lparr>PkgPath = ''root'', Errors = []\<rparr>]),
          ReadFileEv ''root/go.mod'' None, ParseEv False ''root/go.mod'' None,
          CallEv ''root'' (Some SkipAll)] = concat (map (combined_round zeroWalker (load_config zeroWalker ''root'')) rs) @ tail \<and>
            list_all (passes_policy zeroWalker) rs \<and> list_all (\<lambda>x. \<not> aborting (snd (snd x))) rs \<and>
            combined_end zeroWalker (load_config zeroWalker ''root'') None tail)"
    by (rule combined_order[OF run])
qed

text \<open>
  C7: the code at a failing input. In the tree of the scenario the module roots are \<open>root\<close>
  and \<open>root/a\<close>; at both, the loader is called with \<open>Dir = root\<close>, the root of the walk
  (line 192 sets \<open>conf.Dir = dir\<close> once, before the walk), so the packages passed to the
  callback at \<open>root/a\<close> are those of \<open>root\<close>.
\<close>

theorem loader_dir_is_walk_root:
  "LoadEach zeroWalker (traced example_env) ''root'' (\<lambda>d pkgs. traced_call d (no_signal d))
     scenario_tree ((), []) =
   (None,
    ((), [LoadEv (DefaultLoadConfig\<lparr>Dir := ''root''\<rparr>) (Inr [\<lparr>PkgPath = ''root'', Errors = []\<rparr>]),
          CallEv ''root'' None,
          LoadEv (DefaultLoadConfig\<lparr>Dir := ''root''\<rparr>) (Inr [\<lparr>PkgPath = ''root'', Errors = []\<rparr>]),
          CallEv ''root/a'' None]))"
  by (simp add: adapter_simps eval_simps)

end
